theory Spec2Isabelle
  imports Complex_Main
begin

section \<open>Speaking-time tracker (\<^verbatim>\<open>Participant.ts\<close>)\<close>

text \<open>
  The timing fields of the class \<^verbatim>\<open>Participant\<close>. Timestamps are the integer
  millisecond readings of \<^verbatim>\<open>new Date().getTime()\<close>; a field initialised with
  \<^verbatim>\<open>null\<close> is an option. The DOM node, the logger and the optional event log
  (\<^verbatim>\<open>config.PersistEvents\<close>) carry no timing data and are left out.
\<close>

record Participant =
  speakingStrikeStart :: "int option"
  lastSpeakingEnd :: "int option"
  speakingStrikeTime :: int
  totalSpeakingTime :: int

definition newParticipant :: Participant where
  "newParticipant =
     \<lparr>speakingStrikeStart = None, lastSpeakingEnd = None,
      speakingStrikeTime = 0, totalSpeakingTime = 0\<rparr>"

text \<open>
  JavaScript truthiness of a \<^verbatim>\<open>number | null\<close>: \<^verbatim>\<open>null\<close> and \<^verbatim>\<open>0\<close> are
  falsy. The source tests \<^verbatim>\<open>!this.speakingStrikeStart\<close> and \<^verbatim>\<open>!referenceTime\<close>.
\<close>

fun truthy :: "int option \<Rightarrow> bool" where
  "truthy None = False"
| "truthy (Some v) = (v \<noteq> 0)"

text \<open>Every reading of the clock is the explicit argument \<open>now\<close>.\<close>

definition getLiveSpeakingTime :: "int \<Rightarrow> Participant \<Rightarrow> int" where
  "getLiveSpeakingTime now p =
     (if \<not> truthy (speakingStrikeStart p) then 0
      else now - the (speakingStrikeStart p))"

definition getSpeakingStrikeTime :: "int \<Rightarrow> Participant \<Rightarrow> int" where
  "getSpeakingStrikeTime now p = speakingStrikeTime p + getLiveSpeakingTime now p"

definition getTotalSpeakingTime :: "int \<Rightarrow> Participant \<Rightarrow> int" where
  "getTotalSpeakingTime now p = totalSpeakingTime p + getLiveSpeakingTime now p"

definition RECENCY_THRESHOLD_MS :: int where
  "RECENCY_THRESHOLD_MS = 2000"

definition spokeRecently :: "int \<Rightarrow> int option \<Rightarrow> Participant \<Rightarrow> bool" where
  "spokeRecently now referenceTime p =
     (let referenceTime' = (if \<not> truthy referenceTime then now else the referenceTime)
      in case lastSpeakingEnd p of
           None \<Rightarrow> False
         | Some e \<Rightarrow> e < referenceTime' - RECENCY_THRESHOLD_MS)"

definition speaking :: "int \<Rightarrow> Participant \<Rightarrow> Participant" where
  "speaking now p =
     (if \<not> truthy (speakingStrikeStart p) then p\<lparr>speakingStrikeStart := Some now\<rparr>
      else p)"

definition incrementSpeakingTime :: "int \<Rightarrow> Participant \<Rightarrow> Participant" where
  "incrementSpeakingTime v p =
     p\<lparr>speakingStrikeStart := None,
       totalSpeakingTime := totalSpeakingTime p + v,
       speakingStrikeTime := speakingStrikeTime p + v\<rparr>"

definition pauseSpeaking :: "int \<Rightarrow> Participant \<Rightarrow> Participant" where
  "pauseSpeaking now p =
     (let p1 = p\<lparr>lastSpeakingEnd := Some now\<rparr>
      in if truthy (speakingStrikeStart p1)
         then incrementSpeakingTime (now - the (speakingStrikeStart p1)) p1
         else p1)"

definition stopSpeaking :: "Participant \<Rightarrow> Participant" where
  "stopSpeaking p =
     p\<lparr>lastSpeakingEnd := None, speakingStrikeStart := None, speakingStrikeTime := 0\<rparr>"

text \<open>
  The microphone observer of \<^verbatim>\<open>startObservers\<close>: one signal is one call of
  \<^verbatim>\<open>speaking\<close> or \<^verbatim>\<open>pauseSpeaking\<close>.
\<close>

definition onSignal :: "bool \<Rightarrow> int \<Rightarrow> Participant \<Rightarrow> Participant" where
  "onSignal isSpeaking now p = (if isSpeaking then speaking now p else pauseSpeaking now p)"

text \<open>
  The values of \<^verbatim>\<open>getTotalSpeakingTime\<close> along a run of signals: the total is read
  right after each signal, at the time of that signal.
\<close>

fun observedTotals :: "Participant \<Rightarrow> (bool \<times> int) list \<Rightarrow> int list" where
  "observedTotals p [] = []"
| "observedTotals p ((b, t) # evs) =
     getTotalSpeakingTime t (onSignal b t p) # observedTotals (onSignal b t p) evs"

section \<open>Time formatter (\<^verbatim>\<open>Utils.ts\<close>)\<close>

text \<open>
  Conversion of an integer-valued JavaScript number to its decimal string, as done by
  a template literal and by \<^verbatim>\<open>'0' + minutes\<close>.
\<close>

fun digitsOf :: "nat \<Rightarrow> string" where
  "digitsOf n =
     (if n < 10 then [''0123456789'' ! n]
      else digitsOf (n div 10) @ [''0123456789'' ! (n mod 10)])"

declare digitsOf.simps [simp del]

definition numberToString :: "int \<Rightarrow> string" where
  "numberToString n = (if n < 0 then CHR ''-'' # digitsOf (nat (- n)) else digitsOf (nat n))"

text \<open>
  The operator \<^verbatim>\<open>%\<close> of JavaScript takes the sign of the dividend: the quotient is
  truncated towards zero. Numbers are taken as exact reals (no rounding of doubles).
\<close>

definition jsTrunc :: "real \<Rightarrow> int" where
  "jsTrunc x = (if 0 \<le> x then \<lfloor>x\<rfloor> else \<lceil>x\<rceil>)"

definition jsRem :: "real \<Rightarrow> real \<Rightarrow> real" where
  "jsRem x y = x - y * of_int (jsTrunc (x / y))"

definition formatTime :: "int \<Rightarrow> string" where
  "formatTime ms =
     (let seconds = \<lfloor>jsRem (of_int ms / 1000) 60\<rfloor>;
          minutes = \<lfloor>jsRem (of_int ms / (60 * 1000)) 60\<rfloor>;
          hours = \<lfloor>jsRem (of_int ms / (3600 * 1000)) 3600\<rfloor>;
          timeStr = '''';
          timeStr = (if hours \<noteq> 0 then timeStr @ numberToString hours @ '':'' else timeStr);
          timeStr =
            (if timeStr \<noteq> '''' \<or> minutes \<noteq> 0
             then (if timeStr \<noteq> ''''
                   then timeStr @ (if minutes < 10 then ''0'' @ numberToString minutes
                                   else numberToString minutes)
                   else timeStr @ numberToString minutes) @ '':''
             else timeStr);
          timeStr =
            (if timeStr \<noteq> '''' \<or> seconds \<noteq> 0
             then (if timeStr \<noteq> ''''
                   then timeStr @ (if seconds < 10 then ''0'' @ numberToString seconds
                                   else numberToString seconds)
                   else numberToString seconds @ ''s'')
             else timeStr)
      in timeStr)"

section \<open>Caption text merge (\<^verbatim>\<open>ClosedCaptions.ts\<close>)\<close>

definition INTERJECTIONS_TO_SEQUENCE_MIN_RATIO :: int where
  "INTERJECTIONS_TO_SEQUENCE_MIN_RATIO = 5"

definition SHORT_SEQUENCE_MAX_LENGTH_MS :: int where
  "SHORT_SEQUENCE_MAX_LENGTH_MS = 3000"

definition BASE_SEQUENCE_PER_WORD_LENGTH_MS :: int where
  "BASE_SEQUENCE_PER_WORD_LENGTH_MS = 100"

definition wordsInString :: "string \<Rightarrow> nat" where
  "wordsInString str = length (filter (\<lambda>c. c = CHR '' '') str) + 1"

definition PUNCTUATION_CHARS :: "char set" where
  "PUNCTUATION_CHARS = {CHR ''.'', CHR ''!'', CHR ''?'', CHR '',''}"

text \<open>
  Strings are lists of 8-bit characters, and \<^verbatim>\<open>toLowerCase\<close> is modelled on the ASCII
  letters A to Z only; every other character is left as it is. The \<^verbatim>\<open>toLowerCase\<close> of
  JavaScript also maps capital letters outside ASCII, so the model stands for the code on
  ASCII texts. The properties proved below evaluate the merge on ASCII texts, or compare
  a text with itself, where the lower-casing makes no difference.
\<close>

definition toLowerCase :: "char \<Rightarrow> char" where
  "toLowerCase c =
     (let n = (of_char c :: nat) in if 65 \<le> n \<and> n \<le> 90 then char_of (n + 32) else c)"

text \<open>
  Reading \<^verbatim>\<open>updateString[idxUpdate]\<close> past the end of the string gives
  \<^verbatim>\<open>undefined\<close>, and calling \<^verbatim>\<open>toLowerCase\<close> on it throws.
\<close>

datatype error = TypeError

text \<open>
  The \<^verbatim>\<open>while\<close> loop of \<^verbatim>\<open>mergeStrings\<close> on its three cursors. It returns
  \<^verbatim>\<open>foundString\<close> and \<^verbatim>\<open>idxStartMain\<close> as they are when the loop is left.
\<close>

function scanOverlap ::
  "string \<Rightarrow> string \<Rightarrow> nat \<Rightarrow> nat \<Rightarrow> nat \<Rightarrow> nat \<Rightarrow> error + (bool \<times> nat)" where
  "scanOverlap mainString updateString requiredOverlapLength idxMain idxStartMain idxUpdate =
     (if idxMain < length mainString then
        if idxUpdate \<ge> requiredOverlapLength then Inr (True, idxStartMain)
        else if idxUpdate \<ge> length updateString then Inl TypeError
        else if toLowerCase (mainString ! idxMain) = toLowerCase (updateString ! idxUpdate)
          then scanOverlap mainString updateString requiredOverlapLength
                 (idxMain + 1) idxStartMain (idxUpdate + 1)
        else if toLowerCase (mainString ! idxMain) \<in> PUNCTUATION_CHARS
          then scanOverlap mainString updateString requiredOverlapLength
                 (idxMain + 1) idxStartMain idxUpdate
        else if toLowerCase (updateString ! idxUpdate) \<in> PUNCTUATION_CHARS
          then scanOverlap mainString updateString requiredOverlapLength
                 idxMain idxStartMain (idxUpdate + 1)
        else scanOverlap mainString updateString requiredOverlapLength
               (idxStartMain + 1) (idxStartMain + 1) 0
      else Inr (False, idxStartMain))"
  by pat_completeness auto
termination
  by (relation "measures
        [\<lambda>(m, u, k, im, is, iu). if im < length m then Suc (length m - is) else 0,
         \<lambda>(m, u, k, im, is, iu). length m - im,
         \<lambda>(m, u, k, im, is, iu). length u - iu]") auto

declare scanOverlap.simps [simp del]

definition mergeStrings :: "string \<Rightarrow> string \<Rightarrow> nat \<Rightarrow> error + string" where
  "mergeStrings mainString updateString requiredOverlapLength =
     (if length mainString < 30 \<and> length updateString < 30 then Inr updateString
      else case scanOverlap mainString updateString requiredOverlapLength 0 0 0 of
             Inl e \<Rightarrow> Inl e
           | Inr (foundString, idxStartMain) \<Rightarrow>
               if foundString then Inr (take idxStartMain mainString @ updateString)
               else Inr (mainString @ updateString))"

section \<open>Caption turns and the reconciliation engine (\<^verbatim>\<open>ClosedCaptions.ts\<close>)\<close>

text \<open>
  A caption turn. The field \<open>oid\<close> is not a field of the class: it is the identity of the
  JavaScript object, given at construction, so that "the same object" can be told from
  "an object with equal fields". The source's field \<^verbatim>\<open>when\<close> is written \<open>when'\<close>.
\<close>

record ClosedCaptionEvent =
  oid :: nat
  when' :: int
  whenSpokeLast :: int
  who :: string
  what :: string
  howLong :: int
  interjection :: bool
  continuation :: bool

definition newClosedCaptionEvent :: "nat \<Rightarrow> int \<Rightarrow> string \<Rightarrow> string \<Rightarrow> ClosedCaptionEvent" where
  "newClosedCaptionEvent ident whenArg whoArg whatArg =
     (let howLong0 = BASE_SEQUENCE_PER_WORD_LENGTH_MS * int (wordsInString whatArg)
      in \<lparr>oid = ident, when' = whenArg - howLong0, whenSpokeLast = whenArg,
          who = whoArg, what = whatArg, howLong = howLong0,
          interjection = False, continuation = False\<rparr>)"

definition completeFromUpdate ::
  "ClosedCaptionEvent \<Rightarrow> ClosedCaptionEvent \<Rightarrow> bool \<Rightarrow> error + ClosedCaptionEvent" where
  "completeFromUpdate self partialUpdate sameTime =
     (let updateIsNotTrivial = (length (what self) \<noteq> length (what partialUpdate));
          delaySinceLastEvent = whenSpokeLast partialUpdate - whenSpokeLast self;
          self1 = (if updateIsNotTrivial \<and> \<not> sameTime
                   then self\<lparr>howLong := howLong self + delaySinceLastEvent,
                             whenSpokeLast := when' partialUpdate\<rparr>
                   else self)
      in case mergeStrings (what self1) (what partialUpdate) 15 of
           Inl e \<Rightarrow> Inl e
         | Inr merged \<Rightarrow> Inr (self1\<lparr>what := merged\<rparr>))"

text \<open>
  The engine: the finalized list \<^verbatim>\<open>events\<close>, the in-flight \<^verbatim>\<open>eventsBuffer\<close>, and the
  counter \<open>nextOid\<close> from which \<^verbatim>\<open>new ClosedCaptionEvent\<close> takes object identities.
\<close>

record ClosedCaptions =
  events :: "ClosedCaptionEvent list"
  eventsBuffer :: "ClosedCaptionEvent list"
  nextOid :: nat

definition newClosedCaptions :: ClosedCaptions where
  "newClosedCaptions = \<lparr>events = [], eventsBuffer = [], nextOid = 0\<rparr>"

text \<open>
  The backward \<^verbatim>\<open>while\<close> loop of \<^verbatim>\<open>_addEvent\<close>. The last argument is
  \<^verbatim>\<open>interjectionCandidateTurnIndex + 1\<close>, so that \<open>0\<close> is the loop's exit at index \<open>-1\<close>.
  The result is the index of the earlier turn of the same speaker when the turns after
  it are to be marked, and \<open>None\<close> when nothing is marked.
\<close>

fun scanBack ::
  "ClosedCaptionEvent list \<Rightarrow> ClosedCaptionEvent \<Rightarrow> nat \<Rightarrow> nat \<Rightarrow> nat option" where
  "scanBack evs currentTurn turnCount 0 = None"
| "scanBack evs currentTurn turnCount (Suc idx) =
     (if who currentTurn = who (evs ! idx) then
        (if idx < turnCount - 2 \<and>
            howLong (evs ! idx) >
              (when' currentTurn - whenSpokeLast (evs ! idx)) * INTERJECTIONS_TO_SEQUENCE_MIN_RATIO
         then Some idx else None)
      else if howLong (evs ! idx) > SHORT_SEQUENCE_MAX_LENGTH_MS then None
      else scanBack evs currentTurn turnCount idx)"

text \<open>The \<^verbatim>\<open>for\<close> loop that marks the turns in between.\<close>

function markInterjections ::
  "nat \<Rightarrow> nat \<Rightarrow> ClosedCaptionEvent list \<Rightarrow> ClosedCaptionEvent list" where
  "markInterjections turnIdx turnCount evs =
     (if turnIdx < turnCount - 1
      then markInterjections (turnIdx + 1) turnCount
             (evs[turnIdx := (evs ! turnIdx)\<lparr>interjection := True\<rparr>])
      else evs)"
  by pat_completeness auto
termination
  by (relation "measure (\<lambda>(turnIdx, turnCount, evs). turnCount - turnIdx)") auto

declare markInterjections.simps [simp del]

definition addEvent :: "ClosedCaptionEvent \<Rightarrow> ClosedCaptions \<Rightarrow> ClosedCaptions" where
  "addEvent event cc =
     (let evs = events cc @ [event];
          turnCount = length evs
      in if turnCount \<ge> 3 then
           (let currentTurn = evs ! (turnCount - 1)
            in case scanBack evs currentTurn turnCount (turnCount - 1) of
                 None \<Rightarrow> cc\<lparr>events := evs\<rparr>
               | Some idx \<Rightarrow>
                   (let evs1 = markInterjections (idx + 1) turnCount evs
                    in cc\<lparr>events :=
                           evs1[turnCount - 1 :=
                                  (evs1 ! (turnCount - 1))\<lparr>continuation := True\<rparr>]\<rparr>))
         else cc\<lparr>events := evs\<rparr>)"

text \<open>
  \<^verbatim>\<open>_finalizeOldestBufferedEvent\<close>. Both loops that call it test that the buffer is not
  empty first; on an empty buffer the model leaves the engine as it is.
\<close>

definition finalizeOldestBufferedEvent :: "ClosedCaptions \<Rightarrow> ClosedCaptions" where
  "finalizeOldestBufferedEvent cc =
     (case eventsBuffer cc of
        [] \<Rightarrow> cc
      | finalizedEvent # rest \<Rightarrow> addEvent finalizedEvent (cc\<lparr>eventsBuffer := rest\<rparr>))"

text \<open>
  The caption panel as \<^verbatim>\<open>mergeLatestCC\<close> reads it: one entry for each speaker image,
  holding the inner texts of the \<^verbatim>\<open>div\<close> children of the image's parent. Only an entry
  with exactly two of them gives a turn.
\<close>

fun scrapeDialogs :: "int \<Rightarrow> nat \<Rightarrow> string list list \<Rightarrow> ClosedCaptionEvent list" where
  "scrapeDialogs now ident [] = []"
| "scrapeDialogs now ident (authorAndSentenceDivs # rest) =
     (if length authorAndSentenceDivs = 2
      then newClosedCaptionEvent ident now
             (authorAndSentenceDivs ! 0) (authorAndSentenceDivs ! 1)
           # scrapeDialogs now (Suc ident) rest
      else scrapeDialogs now ident rest)"

function shrinkBuffer :: "nat \<Rightarrow> ClosedCaptions \<Rightarrow> ClosedCaptions" where
  "shrinkBuffer newLength cc =
     (if length (eventsBuffer cc) > newLength
      then shrinkBuffer newLength (finalizeOldestBufferedEvent cc)
      else cc)"
  by pat_completeness auto
termination
  by (relation "measure (\<lambda>(newLength, cc). length (eventsBuffer cc))")
     (auto simp: finalizeOldestBufferedEvent_def addEvent_def Let_def
           split: list.splits option.splits)

declare shrinkBuffer.simps [simp del]

function realignBuffer :: "ClosedCaptionEvent list \<Rightarrow> ClosedCaptions \<Rightarrow> ClosedCaptions" where
  "realignBuffer newEvents cc =
     (if newEvents \<noteq> [] \<and> eventsBuffer cc \<noteq> [] \<and>
         who (newEvents ! 0) \<noteq> who (eventsBuffer cc ! 0)
      then realignBuffer newEvents (finalizeOldestBufferedEvent cc)
      else cc)"
  by pat_completeness auto
termination
  by (relation "measure (\<lambda>(newEvents, cc). length (eventsBuffer cc))")
     (auto simp: finalizeOldestBufferedEvent_def addEvent_def Let_def
           split: list.splits option.splits)

declare realignBuffer.simps [simp del]

text \<open>The final \<^verbatim>\<open>for\<close> loop of \<^verbatim>\<open>mergeLatestCC\<close>, on the buffer.\<close>

function mergeLoop ::
  "nat \<Rightarrow> ClosedCaptionEvent list \<Rightarrow> ClosedCaptionEvent list
     \<Rightarrow> error + ClosedCaptionEvent list" where
  "mergeLoop idx newEvents buffer =
     (if idx < length newEvents then
        (if idx < length buffer then
           (case completeFromUpdate (buffer ! idx) (newEvents ! idx)
                   (idx \<noteq> length newEvents - 1) of
              Inl e \<Rightarrow> Inl e
            | Inr merged \<Rightarrow> mergeLoop (idx + 1) newEvents (buffer[idx := merged]))
         else mergeLoop (idx + 1) newEvents (buffer @ [newEvents ! idx]))
      else Inr buffer)"
  by pat_completeness auto
termination
  by (relation "measure (\<lambda>(idx, newEvents, buffer). length newEvents - idx)") auto

declare mergeLoop.simps [simp del]

text \<open>
  \<^verbatim>\<open>mergeLatestCC\<close>, with the clock reading \<open>now\<close> and the panel's content as arguments.
  An exception thrown by a merge leaves the function; the model returns the error
  and not the engine as it was left.
\<close>

definition mergeLatestCC ::
  "int \<Rightarrow> string list list \<Rightarrow> ClosedCaptions \<Rightarrow> error + ClosedCaptions" where
  "mergeLatestCC now dialogs cc =
     (let newEvents = scrapeDialogs now (nextOid cc) dialogs;
          cc1 = cc\<lparr>nextOid := nextOid cc + length newEvents\<rparr>;
          cc2 = shrinkBuffer (length newEvents) cc1;
          cc3 = realignBuffer newEvents cc2
      in if length newEvents \<ge> length (eventsBuffer cc3) then
           (case mergeLoop 0 newEvents (eventsBuffer cc3) of
              Inl e \<Rightarrow> Inl e
            | Inr buffer \<Rightarrow> Inr (cc3\<lparr>eventsBuffer := buffer\<rparr>))
         else Inr cc3)"

text \<open>A run of reconciliations, each with its clock reading and panel content.\<close>

fun mergeAll :: "(int \<times> string list list) list \<Rightarrow> ClosedCaptions \<Rightarrow> error + ClosedCaptions" where
  "mergeAll [] cc = Inr cc"
| "mergeAll ((now, dialogs) # rest) cc =
     (case mergeLatestCC now dialogs cc of
        Inl e \<Rightarrow> Inl e
      | Inr cc' \<Rightarrow> mergeAll rest cc')"

text \<open>
  Object identities are sound when no two turns held by the engine are the same object
  and every identity in use is below the counter.
\<close>

definition identitiesOk :: "ClosedCaptions \<Rightarrow> bool" where
  "identitiesOk cc =
     (distinct (map oid (events cc @ eventsBuffer cc)) \<and>
      list_all (\<lambda>e. oid e < nextOid cc) (events cc @ eventsBuffer cc))"

section \<open>Properties of the speaking-time tracker\<close>

lemmas participant_defs =
  getLiveSpeakingTime_def getSpeakingStrikeTime_def getTotalSpeakingTime_def
  speaking_def incrementSpeakingTime_def pauseSpeaking_def onSignal_def

text \<open>
  Claim C1, as the code has it. \<^verbatim>\<open>spokeRecently\<close> is true exactly when
  \<^verbatim>\<open>lastSpeakingEnd\<close> is set and \<^verbatim>\<open>lastSpeakingEnd < referenceTime - 2000\<close> is TRUE: the
  last utterance ended more than 2000 ms before the reference time. The threshold is the
  constant 2000, and a reference time that is \<^verbatim>\<open>null\<close> or \<open>0\<close> is replaced by the clock.
\<close>

theorem spokeRecently_true_iff_ended_before_threshold:
  "spokeRecently now referenceTime p =
     (\<exists>e. lastSpeakingEnd p = Some e \<and>
          e < (if truthy referenceTime then the referenceTime else now) - 2000)"
  by (cases "lastSpeakingEnd p")
     (simp_all add: spokeRecently_def RECENCY_THRESHOLD_MS_def Let_def)

text \<open>
  Claim C1 as stated fails: with \<^verbatim>\<open>lastSpeakingEnd = 1000\<close> and reference time 1500 the
  comparison \<open>1000 < 1500 - 2000\<close> is false (the utterance ended 500 ms before the
  reference time), and \<^verbatim>\<open>spokeRecently\<close> is false.
\<close>

theorem spokeRecently_within_threshold_counterexample:
  "\<not> spokeRecently 9999 (Some 1500)
       \<lparr>speakingStrikeStart = None, lastSpeakingEnd = Some 1000,
        speakingStrikeTime = 0, totalSpeakingTime = 0\<rparr>
   \<and> \<not> ((1000::int) < 1500 - 2000)"
  by (simp add: spokeRecently_def RECENCY_THRESHOLD_MS_def)

text \<open>
  Strike accounting for a strike that starts at a clock reading other than \<open>0\<close>: from a
  fresh participant, a speaking signal at \<open>t1\<close> and a pause signal at \<open>t2 > t1\<close> give
  \<open>totalSpeakingTime = t2 - t1\<close>, no strike start and \<open>lastSpeakingEnd = t2\<close>; and a
  speaking signal received while a strike is running changes nothing.
\<close>

lemma strike_accounting_nonzero_start:
  "t1 \<noteq> 0 \<Longrightarrow> t1 < t2 \<Longrightarrow>
   totalSpeakingTime (onSignal False t2 (onSignal True t1 newParticipant)) = t2 - t1 \<and>
   speakingStrikeStart (onSignal False t2 (onSignal True t1 newParticipant)) = None \<and>
   lastSpeakingEnd (onSignal False t2 (onSignal True t1 newParticipant)) = Some t2 \<and>
   (truthy (speakingStrikeStart p) \<longrightarrow> onSignal True now p = p)"
  by (simp add: participant_defs newParticipant_def)


lemma getTotalSpeakingTime_onSignal:
  "getTotalSpeakingTime t (onSignal b t p) = getTotalSpeakingTime t p"
  by (cases "speakingStrikeStart p") (simp_all add: participant_defs Let_def)

lemma getTotalSpeakingTime_mono:
  "t \<le> t' \<Longrightarrow> getTotalSpeakingTime t p \<le> getTotalSpeakingTime t' p"
  by (simp add: participant_defs)

text \<open>
  Claim C3. For every participant state and every sequence of signals with non-decreasing
  clock readings, the observed total speaking time (committed total plus the live time
  of the open strike), read at \<open>t0\<close> before the first signal and then right after each
  signal, never decreases.
\<close>

theorem totalTime_monotone:
  "sorted (t0 # map snd evs) \<Longrightarrow>
   sorted (getTotalSpeakingTime t0 p # observedTotals p evs)"
proof (induction evs arbitrary: p t0)
  case Nil
  show ?case by simp
next
  case (Cons ev evs)
  obtain b t where ev: "ev = (b, t)" by (cases ev)
  from Cons.prems ev have le: "t0 \<le> t" and rest: "sorted (t # map snd evs)"
    by simp_all
  have step: "getTotalSpeakingTime t0 p \<le> getTotalSpeakingTime t (onSignal b t p)"
    using getTotalSpeakingTime_mono [OF le, of p] by (simp add: getTotalSpeakingTime_onSignal)
  have ih: "sorted (getTotalSpeakingTime t (onSignal b t p)
                      # observedTotals (onSignal b t p) evs)"
    by (rule Cons.IH [OF rest])
  have "sorted (getTotalSpeakingTime t0 p # getTotalSpeakingTime t (onSignal b t p)
                  # observedTotals (onSignal b t p) evs)"
    using step ih by (simp only: sorted2 simp_thms)
  then show ?case by (simp only: ev observedTotals.simps)
qed

theorem totalTime_monotone_witness:
  "sorted ((1::int) # map snd [(True, 2), (True, 3), (False, 7), (False, 9), (True, 9)]) \<and>
   getTotalSpeakingTime 1 newParticipant
     # observedTotals newParticipant [(True, 2), (True, 3), (False, 7), (False, 9), (True, 9)]
     = [0, 0, 1, 5, 5, 5] \<and>
   sorted (getTotalSpeakingTime 1 newParticipant
     # observedTotals newParticipant [(True, 2), (True, 3), (False, 7), (False, 9), (True, 9)])"
  using totalTime_monotone
    [of 1 "[(True, 2), (True, 3), (False, 7), (False, 9), (True, 9)]" newParticipant]
  by (simp add: participant_defs newParticipant_def)

text \<open>
  Claim C10. A pause signal received while no strike is open (\<^verbatim>\<open>speakingStrikeStart\<close>
  unset) sets \<^verbatim>\<open>lastSpeakingEnd\<close> to the clock reading and leaves the total time, the
  strike time and the strike start as they were; a further pause signal sets it again,
  and \<^verbatim>\<open>spokeRecently\<close> afterwards depends on the new value only.
\<close>

theorem pauseSpeaking_while_idle_refreshes_lastSpeakingEnd:
  "speakingStrikeStart p = None \<Longrightarrow>
   lastSpeakingEnd (pauseSpeaking now p) = Some now \<and>
   totalSpeakingTime (pauseSpeaking now p) = totalSpeakingTime p \<and>
   speakingStrikeTime (pauseSpeaking now p) = speakingStrikeTime p \<and>
   speakingStrikeStart (pauseSpeaking now p) = None \<and>
   lastSpeakingEnd (pauseSpeaking now2 (pauseSpeaking now p)) = Some now2 \<and>
   spokeRecently clock (Some r) (pauseSpeaking now p) =
     (now < (if r = 0 then clock else r) - 2000)"
  by (simp add: participant_defs spokeRecently_def RECENCY_THRESHOLD_MS_def Let_def)

theorem pauseSpeaking_while_idle_witness:
  "speakingStrikeStart
     \<lparr>speakingStrikeStart = None, lastSpeakingEnd = Some 1000,
      speakingStrikeTime = 0, totalSpeakingTime = 700\<rparr> = None \<and>
   spokeRecently 0 (Some 5000)
     \<lparr>speakingStrikeStart = None, lastSpeakingEnd = Some 1000,
      speakingStrikeTime = 0, totalSpeakingTime = 700\<rparr> \<and>
   \<not> spokeRecently 0 (Some 5000)
     (pauseSpeaking 4000
       \<lparr>speakingStrikeStart = None, lastSpeakingEnd = Some 1000,
        speakingStrikeTime = 0, totalSpeakingTime = 700\<rparr>) \<and>
   lastSpeakingEnd
     (pauseSpeaking 4000
       \<lparr>speakingStrikeStart = None, lastSpeakingEnd = Some 1000,
        speakingStrikeTime = 0, totalSpeakingTime = 700\<rparr>) = Some 4000 \<and>
   totalSpeakingTime
     (pauseSpeaking 4000
       \<lparr>speakingStrikeStart = None, lastSpeakingEnd = Some 1000,
        speakingStrikeTime = 0, totalSpeakingTime = 700\<rparr>) = 700"
  using pauseSpeaking_while_idle_refreshes_lastSpeakingEnd
    [of "\<lparr>speakingStrikeStart = None, lastSpeakingEnd = Some 1000,
          speakingStrikeTime = 0, totalSpeakingTime = 700\<rparr>" 4000 4000 0 5000]
  by (simp add: spokeRecently_def RECENCY_THRESHOLD_MS_def)

section \<open>Properties of the time formatter\<close>

lemma mod_div_swap:
  fixes ms d k :: int
  assumes "0 < d" "0 < k"
  shows "(ms mod (d * k)) div d = (ms div d) mod k"
proof -
  have "ms mod (d * k) = d * (ms div d mod k) + ms mod d"
    using assms by (simp add: zmod_zmult2_eq)
  moreover have "0 \<le> ms mod d" "ms mod d < d" using assms by simp_all
  ultimately show ?thesis using assms by simp
qed

lemma floor_jsRem:
  assumes "0 \<le> ms" "0 < d" "0 < k"
  shows "\<lfloor>jsRem (of_int ms / of_int d) (of_int k)\<rfloor> = (ms div d) mod k"
proof -
  have q: "real_of_int ms / of_int d / of_int k = of_int ms / of_int (d * k)"
    by simp
  have nonneg: "0 \<le> real_of_int ms / of_int d / of_int k"
    using assms by simp
  have tr: "jsTrunc (real_of_int ms / of_int d / of_int k) = ms div (d * k)"
    unfolding jsTrunc_def using nonneg by (simp only: if_True q floor_divide_of_int_eq)
  have "real_of_int ms / of_int d - of_int k * of_int (ms div (d * k))
        = of_int (ms - d * k * (ms div (d * k))) / of_int d"
    using assms by (simp add: field_simps)
  also have "ms - d * k * (ms div (d * k)) = ms mod (d * k)"
    by (simp add: minus_mult_div_eq_mod)
  finally have "jsRem (of_int ms / of_int d) (of_int k) = of_int (ms mod (d * k)) / of_int d"
    by (simp only: jsRem_def tr)
  then have "\<lfloor>jsRem (of_int ms / of_int d) (of_int k)\<rfloor> = (ms mod (d * k)) div d"
    by (simp only: floor_divide_of_int_eq)
  then show ?thesis using assms by (simp only: mod_div_swap)
qed

lemma formatTime_floor_units:
  assumes "0 \<le> ms"
  shows "\<lfloor>jsRem (of_int ms / 1000) 60\<rfloor> = (ms div 1000) mod 60"
    "\<lfloor>jsRem (of_int ms / (60 * 1000)) 60\<rfloor> = (ms div 60000) mod 60"
    "\<lfloor>jsRem (of_int ms / (3600 * 1000)) 3600\<rfloor> = (ms div 3600000) mod 3600"
  using floor_jsRem [OF assms, of 1000 60] floor_jsRem [OF assms, of 60000 60]
     floor_jsRem [OF assms, of 3600000 3600] by simp_all

lemma formatTime_core:
  "(let timeStr = '''';
        timeStr = (if h \<noteq> 0 then timeStr @ numberToString h @ '':'' else timeStr);
        timeStr =
            (if timeStr \<noteq> '''' \<or> m \<noteq> 0
             then (if timeStr \<noteq> ''''
                   then timeStr @ (if m < 10 then ''0'' @ numberToString m
                                   else numberToString m)
                   else timeStr @ numberToString m) @ '':''
             else timeStr);
        timeStr =
            (if timeStr \<noteq> '''' \<or> s \<noteq> 0
             then (if timeStr \<noteq> ''''
                   then timeStr @ (if s < 10 then ''0'' @ numberToString s
                                   else numberToString s)
                   else numberToString s @ ''s'')
             else timeStr)
      in timeStr) =
      (if h \<noteq> 0 then
           numberToString h @ '':'' @ (if m < 10 then ''0'' else '''') @ numberToString m
             @ '':'' @ (if s < 10 then ''0'' else '''') @ numberToString s
         else if m \<noteq> 0 then
           numberToString m @ '':'' @ (if s < 10 then ''0'' else '''') @ numberToString s
         else if s \<noteq> 0 then numberToString s @ ''s''
         else '''')"
proof (cases "h = 0")
  case hz: True
  show ?thesis
  proof (cases "m = 0")
    case True
    with hz show ?thesis by (simp add: Let_def)
  next
    case False
    with hz show ?thesis by (simp add: Let_def)
  qed
next
  case False
  then show ?thesis by (simp add: Let_def)
qed

lemma formatTime_units:
  assumes "0 \<le> ms"
  shows "formatTime ms =
     (let h = (ms div 3600000) mod 3600; m = (ms div 60000) mod 60; s = (ms div 1000) mod 60
      in if h \<noteq> 0 then
           numberToString h @ '':'' @ (if m < 10 then ''0'' else '''') @ numberToString m
             @ '':'' @ (if s < 10 then ''0'' else '''') @ numberToString s
         else if m \<noteq> 0 then
           numberToString m @ '':'' @ (if s < 10 then ''0'' else '''') @ numberToString s
         else if s \<noteq> 0 then numberToString s @ ''s''
         else '''')"
  unfolding formatTime_def formatTime_floor_units [OF assms] Let_def [of "_ mod _"]
  by (rule formatTime_core)

lemma formatTime_below_minute:
  assumes "0 \<le> ms" "ms < 60000"
  shows "formatTime ms = (if ms < 1000 then '''' else numberToString (ms div 1000) @ ''s'')"
proof -
  have h: "ms div 3600000 = 0" and m: "ms div 60000 = 0" using assms by simp_all
  have "ms div 1000 < 60" using assms by simp
  moreover have "0 \<le> ms div 1000" using assms by simp
  ultimately have s: "(ms div 1000) mod 60 = ms div 1000" by simp
  have z: "(ms div 1000 = 0) = (ms < 1000)" using assms by arith
  show ?thesis
    by (simp add: formatTime_units [OF assms(1)] Let_def h m s z)
qed

lemma formatTime_table:
  "formatTime 0 = ''''" "formatTime 45000 = ''45s''"
  "formatTime 65000 = ''1:05''" "formatTime 3661000 = ''1:01:01''"
  using formatTime_units [of 0] formatTime_units [of 45000]
    formatTime_units [of 65000] formatTime_units [of 3661000]
  by (simp_all add: numberToString_def digitsOf.simps)

text \<open>
  Claim C9, amended. \<^verbatim>\<open>formatTime\<close> is a total function with the four values of the
  table. On a count \<open>ms \<ge> 0\<close>, with \<open>h\<close>, \<open>m\<close>, \<open>s\<close> the hours (modulo 3600), minutes and
  seconds it computes: when \<open>h\<close> is not zero the result is \<open>h:MM:SS\<close>; when \<open>h\<close> is zero
  and \<open>m\<close> is not, it is \<open>m:SS\<close> with the minutes not padded; when both are zero it is the
  bare seconds \<open>Ss\<close>, and the empty string when the seconds are zero too. Under one
  minute the result is \<open>Ss\<close> with \<open>S = ms div 1000\<close> from one second on, and the empty
  string for every count under one second, not only for \<open>0\<close>.
\<close>

theorem formatTime_spec:
  "formatTime 0 = '''' \<and> formatTime 45000 = ''45s'' \<and>
   formatTime 65000 = ''1:05'' \<and> formatTime 3661000 = ''1:01:01'' \<and>
   (0 \<le> ms \<longrightarrow>
      formatTime ms =
        (let h = (ms div 3600000) mod 3600; m = (ms div 60000) mod 60;
             s = (ms div 1000) mod 60
         in if h \<noteq> 0 then
              numberToString h @ '':'' @ (if m < 10 then ''0'' else '''') @ numberToString m
                @ '':'' @ (if s < 10 then ''0'' else '''') @ numberToString s
            else if m \<noteq> 0 then
              numberToString m @ '':'' @ (if s < 10 then ''0'' else '''') @ numberToString s
            else if s \<noteq> 0 then numberToString s @ ''s''
            else '''')) \<and>
   (0 \<le> ms \<and> ms < 60000 \<longrightarrow>
      formatTime ms = (if ms < 1000 then '''' else numberToString (ms div 1000) @ ''s''))"
proof (intro conjI impI)
  show "formatTime 0 = ''''" by (rule formatTime_table)
  show "formatTime 45000 = ''45s''" by (rule formatTime_table)
  show "formatTime 65000 = ''1:05''" by (rule formatTime_table)
  show "formatTime 3661000 = ''1:01:01''" by (rule formatTime_table)
next
  assume "0 \<le> ms"
  then show "formatTime ms =
        (let h = (ms div 3600000) mod 3600; m = (ms div 60000) mod 60;
             s = (ms div 1000) mod 60
         in if h \<noteq> 0 then
              numberToString h @ '':'' @ (if m < 10 then ''0'' else '''') @ numberToString m
                @ '':'' @ (if s < 10 then ''0'' else '''') @ numberToString s
            else if m \<noteq> 0 then
              numberToString m @ '':'' @ (if s < 10 then ''0'' else '''') @ numberToString s
            else if s \<noteq> 0 then numberToString s @ ''s''
            else '''')"
    by (rule formatTime_units)
next
  assume "0 \<le> ms \<and> ms < 60000"
  then show "formatTime ms = (if ms < 1000 then '''' else numberToString (ms div 1000) @ ''s'')"
    by (simp only: formatTime_below_minute)
qed

theorem formatTime_spec_witness:
  "(0::int) \<le> 59999 \<and> (59999::int) < 60000 \<and> formatTime 59999 = ''59s'' \<and>
   (0::int) \<le> 500 \<and> (500::int) < 60000 \<and> formatTime 500 = '''' \<and>
   (0::int) \<le> 45296000 \<and> formatTime 45296000 = ''12:34:56''"
proof -
  have a: "formatTime 59999 = ''59s''"
    using formatTime_spec [of 59999] by (simp add: numberToString_def digitsOf.simps)
  have b: "formatTime 500 = ''''"
    using formatTime_spec [of 500] by simp
  have c: "formatTime 45296000 = ''12:34:56''"
    using formatTime_spec [of 45296000] by (simp add: numberToString_def digitsOf.simps)
  show ?thesis using a b c by simp
qed

text \<open>
  Claim C9 as stated fails for a count that is not \<open>0\<close> and under one second: 500 ms is
  under one minute and the result is the empty string, not the bare-seconds form \<open>0s\<close>.
\<close>

theorem formatTime_under_one_second_counterexample:
  "(0::int) < 500 \<and> (500::int) < 60000 \<and> formatTime 500 = '''' \<and>
   formatTime 500 \<noteq> numberToString (500 div 1000) @ ''s''"
  using formatTime_below_minute [of 500] by simp

section \<open>Properties of the interjection scan\<close>

lemma markInterjections_length:
  "length (markInterjections a n evs) = length evs"
proof (induction a n evs rule: markInterjections.induct)
  case (1 turnIdx turnCount evs)
  show ?case
  proof (cases "turnIdx < turnCount - 1")
    case True
    with "1" show ?thesis by (simp add: markInterjections.simps [of turnIdx])
  next
    case False
    then show ?thesis by (simp add: markInterjections.simps [of turnIdx])
  qed
qed

lemma markInterjections_nth:
  "i < length evs \<Longrightarrow>
   markInterjections a n evs ! i =
     (if a \<le> i \<and> i < n - 1 then (evs ! i)\<lparr>interjection := True\<rparr> else evs ! i)"
proof (induction a n evs rule: markInterjections.induct)
  case (1 turnIdx turnCount evs)
  show ?case
  proof (cases "turnIdx < turnCount - 1")
    case True
    have "markInterjections turnIdx turnCount evs ! i =
          markInterjections (turnIdx + 1) turnCount
            (evs[turnIdx := (evs ! turnIdx)\<lparr>interjection := True\<rparr>]) ! i"
      using True by (simp add: markInterjections.simps [of turnIdx])
    also have "\<dots> = (if turnIdx + 1 \<le> i \<and> i < turnCount - 1
                      then (evs[turnIdx := (evs ! turnIdx)\<lparr>interjection := True\<rparr>] ! i)
                             \<lparr>interjection := True\<rparr>
                      else evs[turnIdx := (evs ! turnIdx)\<lparr>interjection := True\<rparr>] ! i)"
      using "1.IH" [OF True] "1.prems" by simp
    also have "\<dots> = (if turnIdx \<le> i \<and> i < turnCount - 1
                      then (evs ! i)\<lparr>interjection := True\<rparr> else evs ! i)"
      using True "1.prems" by (cases "i = turnIdx") auto
    finally show ?thesis .
  next
    case False
    then show ?thesis by (auto simp: markInterjections.simps [of turnIdx])
  qed
qed

lemma scanBack_finds:
  "j < k \<Longrightarrow> who cur = who (evs ! j) \<Longrightarrow>
   (\<forall>i. j < i \<and> i < k \<longrightarrow> who cur \<noteq> who (evs ! i) \<and> howLong (evs ! i) \<le> 3000) \<Longrightarrow>
   scanBack evs cur n k =
     (if j < n - 2 \<and> howLong (evs ! j) > (when' cur - whenSpokeLast (evs ! j)) * 5
      then Some j else None)"
proof (induction k)
  case 0
  then show ?case by simp
next
  case (Suc k)
  show ?case
  proof (cases "j = k")
    case True
    with Suc.prems show ?thesis
      by (simp add: INTERJECTIONS_TO_SEQUENCE_MIN_RATIO_def)
  next
    case False
    with Suc.prems have jk: "j < k" by simp
    from Suc.prems jk have here: "who cur \<noteq> who (evs ! k)" "howLong (evs ! k) \<le> 3000"
      by simp_all
    from Suc.prems have rest:
      "\<forall>i. j < i \<and> i < k \<longrightarrow> who cur \<noteq> who (evs ! i) \<and> howLong (evs ! i) \<le> 3000"
      by simp
    show ?thesis
      using here Suc.IH [OF jk Suc.prems(2) rest]
      by (simp add: SHORT_SEQUENCE_MAX_LENGTH_MS_def)
  qed
qed

lemma scanBack_long_turn:
  "j < k \<Longrightarrow> who cur \<noteq> who (evs ! j) \<Longrightarrow> howLong (evs ! j) > 3000 \<Longrightarrow>
   (\<forall>i. j < i \<and> i < k \<longrightarrow> who cur \<noteq> who (evs ! i)) \<Longrightarrow>
   scanBack evs cur n k = None"
proof (induction k)
  case 0
  then show ?case by simp
next
  case (Suc k)
  show ?case
  proof (cases "j = k")
    case True
    with Suc.prems show ?thesis by (simp add: SHORT_SEQUENCE_MAX_LENGTH_MS_def)
  next
    case False
    with Suc.prems have jk: "j < k" by simp
    from Suc.prems jk have here: "who cur \<noteq> who (evs ! k)" by simp
    from Suc.prems have rest: "\<forall>i. j < i \<and> i < k \<longrightarrow> who cur \<noteq> who (evs ! i)" by simp
    show ?thesis
      using here Suc.IH [OF jk Suc.prems(2) Suc.prems(3) rest] by simp
  qed
qed

lemma addEvent_nothing_marked:
  "scanBack (events cc @ [ev]) ev (Suc (length (events cc))) (length (events cc)) = None \<Longrightarrow>
   addEvent ev cc = cc\<lparr>events := events cc @ [ev]\<rparr>"
  by (simp add: addEvent_def Let_def)

text \<open>
  Claim C6, amended. When a turn \<open>ev\<close> is added to the finalized list:
  (1) if a turn of another speaker at index \<open>j\<close> lasted more than 3000 ms and no turn
  after it is by the speaker of \<open>ev\<close>, nothing is classified;
  (2) if the turn at index \<open>j\<close> is by the speaker of \<open>ev\<close>, at least one turn lies
  between it and \<open>ev\<close>, every turn in between is by another speaker and lasted at most
  3000 ms, and its duration exceeds five times the gap from its last update to the
  start of \<open>ev\<close>, then every turn in between is marked as interjection, \<open>ev\<close> is marked
  as continuation, and the turns up to index \<open>j\<close> are unchanged;
  (3) if the turn right before \<open>ev\<close> is by the same speaker, nothing is classified.
\<close>

theorem interjection_classification:
  "(j < length (events cc) \<and> who ev \<noteq> who (events cc ! j) \<and> howLong (events cc ! j) > 3000 \<and>
    (\<forall>i. j < i \<and> i < length (events cc) \<longrightarrow> who ev \<noteq> who (events cc ! i))
    \<longrightarrow> addEvent ev cc = cc\<lparr>events := events cc @ [ev]\<rparr>) \<and>
   (j + 1 < length (events cc) \<and> who ev = who (events cc ! j) \<and>
    (\<forall>i. j < i \<and> i < length (events cc) \<longrightarrow>
          who ev \<noteq> who (events cc ! i) \<and> howLong (events cc ! i) \<le> 3000) \<and>
    howLong (events cc ! j) > (when' ev - whenSpokeLast (events cc ! j)) * 5
    \<longrightarrow> length (events (addEvent ev cc)) = length (events cc) + 1 \<and>
        (\<forall>i < length (events cc).
           events (addEvent ev cc) ! i =
             (if j < i then (events cc ! i)\<lparr>interjection := True\<rparr> else events cc ! i)) \<and>
        events (addEvent ev cc) ! length (events cc) = ev\<lparr>continuation := True\<rparr>) \<and>
   (events cc \<noteq> [] \<and> who ev = who (last (events cc))
    \<longrightarrow> addEvent ev cc = cc\<lparr>events := events cc @ [ev]\<rparr>)"
proof (intro conjI impI)
  let ?old = "events cc" and ?evs = "events cc @ [ev]"
  let ?m = "length (events cc)"
  {
    assume a: "j < ?m \<and> who ev \<noteq> who (?old ! j) \<and> howLong (?old ! j) > 3000 \<and>
      (\<forall>i. j < i \<and> i < ?m \<longrightarrow> who ev \<noteq> who (?old ! i))"
    then have "scanBack ?evs ev (Suc ?m) ?m = None"
      by (intro scanBack_long_turn [of j]) (auto simp: nth_append)
    then show "addEvent ev cc = cc\<lparr>events := ?evs\<rparr>"
      by (rule addEvent_nothing_marked)
  }
  {
    assume c: "?old \<noteq> [] \<and> who ev = who (last ?old)"
    then have m: "0 < ?m" by simp
    have "scanBack ?evs ev (Suc ?m) ?m =
       (if ?m - 1 < Suc ?m - 2 \<and>
           howLong (?evs ! (?m - 1)) > (when' ev - whenSpokeLast (?evs ! (?m - 1))) * 5
        then Some (?m - 1) else None)"
      using c m by (intro scanBack_finds) (auto simp: nth_append last_conv_nth)
    then have "scanBack ?evs ev (Suc ?m) ?m = None" by simp
    then show "addEvent ev cc = cc\<lparr>events := ?evs\<rparr>"
      by (rule addEvent_nothing_marked)
  }
  assume b: "j + 1 < ?m \<and> who ev = who (?old ! j) \<and>
    (\<forall>i. j < i \<and> i < ?m \<longrightarrow> who ev \<noteq> who (?old ! i) \<and> howLong (?old ! i) \<le> 3000) \<and>
    howLong (?old ! j) > (when' ev - whenSpokeLast (?old ! j)) * 5"
  have "scanBack ?evs ev (Suc ?m) ?m =
       (if j < Suc ?m - 2 \<and> howLong (?evs ! j) > (when' ev - whenSpokeLast (?evs ! j)) * 5
        then Some j else None)"
    using b by (intro scanBack_finds) (auto simp: nth_append)
  then have found: "scanBack ?evs ev (Suc ?m) ?m = Some j"
    using b by (auto simp: nth_append)
  have m3: "3 \<le> Suc ?m" using b by simp
  define evs1 where "evs1 = markInterjections (j + 1) (Suc ?m) ?evs"
  have res: "events (addEvent ev cc) = evs1[?m := (evs1 ! ?m)\<lparr>continuation := True\<rparr>]"
    using found m3 by (simp add: addEvent_def Let_def evs1_def)
  have len1: "length evs1 = Suc ?m" by (simp add: evs1_def markInterjections_length)
  have nth1: "\<And>i. i < Suc ?m \<Longrightarrow>
      evs1 ! i = (if j + 1 \<le> i \<and> i < ?m then (?evs ! i)\<lparr>interjection := True\<rparr> else ?evs ! i)"
    unfolding evs1_def by (subst markInterjections_nth) simp_all
  show "length (events (addEvent ev cc)) = ?m + 1"
    by (simp add: res len1)
  show "\<forall>i < ?m. events (addEvent ev cc) ! i =
          (if j < i then (?old ! i)\<lparr>interjection := True\<rparr> else ?old ! i)"
    by (auto simp: res len1 nth1 nth_append)
  show "events (addEvent ev cc) ! ?m = ev\<lparr>continuation := True\<rparr>"
    by (simp add: res len1 nth1)
qed

theorem interjection_classification_witness:
  "events (addEvent
     \<lparr>oid = 2, when' = 9600, whenSpokeLast = 10000, who = ''A'', what = ''c'',
      howLong = 400, interjection = False, continuation = False\<rparr>
     \<lparr>events =
        [\<lparr>oid = 0, when' = 1000, whenSpokeLast = 9000, who = ''A'', what = ''a'',
          howLong = 8000, interjection = False, continuation = False\<rparr>,
         \<lparr>oid = 1, when' = 9100, whenSpokeLast = 9500, who = ''B'', what = ''b'',
          howLong = 500, interjection = False, continuation = False\<rparr>],
      eventsBuffer = [], nextOid = 3\<rparr>) ! 1
   = \<lparr>oid = 1, when' = 9100, whenSpokeLast = 9500, who = ''B'', what = ''b'',
      howLong = 500, interjection = True, continuation = False\<rparr> \<and>
   events (addEvent
     \<lparr>oid = 2, when' = 9600, whenSpokeLast = 10000, who = ''A'', what = ''c'',
      howLong = 400, interjection = False, continuation = False\<rparr>
     \<lparr>events =
        [\<lparr>oid = 0, when' = 1000, whenSpokeLast = 9000, who = ''A'', what = ''a'',
          howLong = 8000, interjection = False, continuation = False\<rparr>,
         \<lparr>oid = 1, when' = 9100, whenSpokeLast = 9500, who = ''B'', what = ''b'',
          howLong = 500, interjection = False, continuation = False\<rparr>],
      eventsBuffer = [], nextOid = 3\<rparr>) ! 2
   = \<lparr>oid = 2, when' = 9600, whenSpokeLast = 10000, who = ''A'', what = ''c'',
      howLong = 400, interjection = False, continuation = True\<rparr> \<and>
   (8000::int) > (9600 - 9000) * 5 \<and> (500::int) \<le> 3000"
proof -
  let ?ev = "\<lparr>oid = 2, when' = 9600, whenSpokeLast = 10000, who = ''A'', what = ''c'',
      howLong = 400, interjection = False, continuation = False\<rparr>"
  let ?cc = "\<lparr>events =
        [\<lparr>oid = 0, when' = 1000, whenSpokeLast = 9000, who = ''A'', what = ''a'',
          howLong = 8000, interjection = False, continuation = False\<rparr>,
         \<lparr>oid = 1, when' = 9100, whenSpokeLast = 9500, who = ''B'', what = ''b'',
          howLong = 500, interjection = False, continuation = False\<rparr>],
      eventsBuffer = [], nextOid = 3\<rparr>"
  have between: "\<forall>i. 0 < i \<and> i < length (events ?cc) \<longrightarrow>
          who ?ev \<noteq> who (events ?cc ! i) \<and> howLong (events ?cc ! i) \<le> 3000"
  proof (intro allI impI)
    fix i :: nat
    assume "0 < i \<and> i < length (events ?cc)"
    then have "i = 1" by simp
    then show "who ?ev \<noteq> who (events ?cc ! i) \<and> howLong (events ?cc ! i) \<le> 3000"
      by simp
  qed
  have hyp: "0 + 1 < length (events ?cc) \<and> who ?ev = who (events ?cc ! 0) \<and>
    (\<forall>i. 0 < i \<and> i < length (events ?cc) \<longrightarrow>
          who ?ev \<noteq> who (events ?cc ! i) \<and> howLong (events ?cc ! i) \<le> 3000) \<and>
    howLong (events ?cc ! 0) > (when' ?ev - whenSpokeLast (events ?cc ! 0)) * 5"
    using between by simp
  from interjection_classification [of 0 ?cc ?ev] hyp
  have concl: "(\<forall>i < length (events ?cc).
           events (addEvent ?ev ?cc) ! i =
             (if 0 < i then (events ?cc ! i)\<lparr>interjection := True\<rparr> else events ?cc ! i)) \<and>
        events (addEvent ?ev ?cc) ! length (events ?cc) = ?ev\<lparr>continuation := True\<rparr>"
    by blast
  have len: "length (events ?cc) = 2" by simp
  from concl have all: "\<And>i. i < length (events ?cc) \<Longrightarrow>
           events (addEvent ?ev ?cc) ! i =
             (if 0 < i then (events ?cc ! i)\<lparr>interjection := True\<rparr> else events ?cc ! i)"
    by blast
  from concl have "events (addEvent ?ev ?cc) ! length (events ?cc) = ?ev\<lparr>continuation := True\<rparr>"
    by (rule conjunct2)
  then have "events (addEvent ?ev ?cc) ! 2 = ?ev\<lparr>continuation := True\<rparr>"
    unfolding len .
  moreover have "events (addEvent ?ev ?cc) ! 1 = (events ?cc ! 1)\<lparr>interjection := True\<rparr>"
    using all [of 1] by simp
  ultimately show ?thesis by simp
qed

text \<open>
  Claim C6 as stated fails when the earlier turn of the same speaker comes right before
  the new one: the earlier turn lasted 8000 ms, more than five times the gap of 100 ms,
  and the new turn is not marked as continuation.
\<close>

theorem continuation_needs_intervening_turn_counterexample:
  "(8000::int) > (10100 - 10000) * 5 \<and>
   \<not> continuation (last (events (addEvent
       \<lparr>oid = 2, when' = 10100, whenSpokeLast = 10500, who = ''A'', what = ''c'',
        howLong = 400, interjection = False, continuation = False\<rparr>
       \<lparr>events =
          [\<lparr>oid = 0, when' = 1000, whenSpokeLast = 1500, who = ''B'', what = ''a'',
            howLong = 500, interjection = False, continuation = False\<rparr>,
           \<lparr>oid = 1, when' = 2000, whenSpokeLast = 10000, who = ''A'', what = ''b'',
            howLong = 8000, interjection = False, continuation = False\<rparr>],
        eventsBuffer = [], nextOid = 3\<rparr>)))"
  by code_simp

section \<open>Properties of the text merge and of the timing update\<close>

lemma mergeStrings_short:
  "length mainString < 30 \<Longrightarrow> length updateString < 30 \<Longrightarrow>
   mergeStrings mainString updateString k = Inr updateString"
  by (simp add: mergeStrings_def)

lemma mergeStrings_short_example: "mergeStrings ''Hi'' ''Hi there'' 15 = Inr ''Hi there''"
  by (simp add: mergeStrings_def)

lemma mergeStrings_long_overlap_example:
  "mergeStrings ''I think that today the weather is nice'' ''the weather is nice today and'' 15
   = Inr ''I think that today the weather is nice today and''"
  by code_simp

text \<open>
  A run of 15 matching characters that ends exactly at the end of the main string is not
  seen: the loop is left before the test at its head is reached again.
\<close>

lemma mergeStrings_overlap_at_end_missed:
  "mergeStrings ''xxxxxxxxxxxxxxxxxxxxxxxxxthe weather is '' ''the weather is nice today'' 15
   = Inr ''xxxxxxxxxxxxxxxxxxxxxxxxxthe weather is the weather is nice today''"
  by code_simp

text \<open>
  Claim C4 fails on the code. The main string has 38 characters and the update
  \<open>Hello\<close> has 5, so no run of 15 characters of the update can match and the claim gives
  the concatenation of the two; the code matches the 5 characters, reads the update at
  index 5 and throws.
\<close>

theorem mergeStrings_short_update_throws:
  "mergeStrings ''Hello everyone, welcome to the meeting'' ''Hello'' 15 = Inl TypeError"
  by code_simp

text \<open>
  Claim C8 fails on the code. A turn is first seen at time 1000 with the text \<open>Hello\<close>,
  then updated at time 2000 and at time 3000, each time with a longer text. After the
  update at 2000 the time of the last update is 1800 (the backdated \<^verbatim>\<open>when\<close> of the
  update), not 2000; so the update at 3000 adds 1200 ms to the duration, not the 1000 ms
  that passed, and the duration ends at 2300 instead of 2100.
\<close>

theorem completeFromUpdate_backdates_whenSpokeLast:
  "mergeAll [(1000, [[''A'', ''Hello'']]), (2000, [[''A'', ''Hello there'']])] newClosedCaptions =
     Inr \<lparr>events = [],
          eventsBuffer =
            [\<lparr>oid = 0, when' = 900, whenSpokeLast = 1800, who = ''A'', what = ''Hello there'',
              howLong = 1100, interjection = False, continuation = False\<rparr>],
          nextOid = 2\<rparr> \<and>
   mergeAll [(1000, [[''A'', ''Hello'']]), (2000, [[''A'', ''Hello there'']]),
             (3000, [[''A'', ''Hello there you'']])] newClosedCaptions =
     Inr \<lparr>events = [],
          eventsBuffer =
            [\<lparr>oid = 0, when' = 900, whenSpokeLast = 2700, who = ''A'',
              what = ''Hello there you'', howLong = 2300,
              interjection = False, continuation = False\<rparr>],
          nextOid = 3\<rparr>"
  by code_simp

section \<open>Properties of the reconciliation engine\<close>

lemma map_oid_mark:
  "map oid (xs[i := (xs ! i)\<lparr>interjection := b\<rparr>]) = map oid xs"
proof (cases "i < length xs")
  case True
  then show ?thesis by (intro nth_equalityI) (auto simp: nth_list_update)
next
  case False
  then have "length xs \<le> i" by simp
  then show ?thesis by (simp only: list_update_beyond)
qed

lemma map_oid_continuation:
  "map oid (xs[i := (xs ! i)\<lparr>continuation := b\<rparr>]) = map oid xs"
proof (cases "i < length xs")
  case True
  then show ?thesis by (intro nth_equalityI) (auto simp: nth_list_update)
next
  case False
  then have "length xs \<le> i" by simp
  then show ?thesis by (simp only: list_update_beyond)
qed

lemma markInterjections_oid:
  "map oid (markInterjections a n evs) = map oid evs"
proof (induction a n evs rule: markInterjections.induct)
  case (1 turnIdx turnCount evs)
  show ?case
  proof (cases "turnIdx < turnCount - 1")
    case True
    with "1" show ?thesis
      by (simp add: markInterjections.simps [of turnIdx] map_oid_mark)
  next
    case False
    then show ?thesis by (simp add: markInterjections.simps [of turnIdx])
  qed
qed

lemma addEvent_frame:
  "eventsBuffer (addEvent e cc) = eventsBuffer cc"
  "nextOid (addEvent e cc) = nextOid cc"
  "map oid (events (addEvent e cc)) = map oid (events cc) @ [oid e]"
  by (simp_all add: addEvent_def Let_def map_oid_continuation markInterjections_oid
        split: option.splits)

lemma finalize_Cons:
  assumes "eventsBuffer cc = e # rest"
  shows "eventsBuffer (finalizeOldestBufferedEvent cc) = rest"
    and "nextOid (finalizeOldestBufferedEvent cc) = nextOid cc"
    and "map oid (events (finalizeOldestBufferedEvent cc)) = map oid (events cc) @ [oid e]"
  using assms by (simp_all add: finalizeOldestBufferedEvent_def addEvent_frame)

text \<open>What a run of finalizations does to the two containers.\<close>

lemma finalize_step_moves:
  assumes buf: "eventsBuffer cc = e # rest"
    and ih: "\<exists>k \<le> length (eventsBuffer (finalizeOldestBufferedEvent cc)).
        map oid (events r) =
          map oid (events (finalizeOldestBufferedEvent cc))
            @ map oid (take k (eventsBuffer (finalizeOldestBufferedEvent cc))) \<and>
        eventsBuffer r = drop k (eventsBuffer (finalizeOldestBufferedEvent cc)) \<and>
        nextOid r = nextOid (finalizeOldestBufferedEvent cc)"
  shows "\<exists>k \<le> length (eventsBuffer cc).
        map oid (events r) = map oid (events cc) @ map oid (take k (eventsBuffer cc)) \<and>
        eventsBuffer r = drop k (eventsBuffer cc) \<and> nextOid r = nextOid cc"
proof -
  from ih obtain k where k: "k \<le> length rest"
    "map oid (events r) = map oid (events cc) @ [oid e] @ map oid (take k rest)"
    "eventsBuffer r = drop k rest" "nextOid r = nextOid cc"
    by (auto simp: finalize_Cons [OF buf])
  show ?thesis
    by (rule exI [of _ "Suc k"]) (simp add: buf k)
qed

lemma shrinkBuffer_moves:
  "\<exists>k \<le> length (eventsBuffer cc).
     map oid (events (shrinkBuffer n cc)) =
       map oid (events cc) @ map oid (take k (eventsBuffer cc)) \<and>
     eventsBuffer (shrinkBuffer n cc) = drop k (eventsBuffer cc) \<and>
     nextOid (shrinkBuffer n cc) = nextOid cc"
proof (induction n cc rule: shrinkBuffer.induct)
  case (1 n cc)
  show ?case
  proof (cases "length (eventsBuffer cc) > n")
    case True
    then obtain e rest where buf: "eventsBuffer cc = e # rest"
      by (cases "eventsBuffer cc") auto
    have eq: "shrinkBuffer n cc = shrinkBuffer n (finalizeOldestBufferedEvent cc)"
      using True by (simp add: shrinkBuffer.simps [of n cc])
    show ?thesis
      unfolding eq by (rule finalize_step_moves [OF buf "1.IH" [OF True]])
  next
    case False
    then have "shrinkBuffer n cc = cc" by (simp add: shrinkBuffer.simps [of n cc])
    then show ?thesis by (intro exI [of _ 0]) simp
  qed
qed

lemma shrinkBuffer_length: "length (eventsBuffer (shrinkBuffer n cc)) \<le> n"
proof (induction n cc rule: shrinkBuffer.induct)
  case (1 n cc)
  show ?case
  proof (cases "length (eventsBuffer cc) > n")
    case True
    with "1.IH" show ?thesis by (simp add: shrinkBuffer.simps [of n cc])
  next
    case False
    then show ?thesis by (simp add: shrinkBuffer.simps [of n cc])
  qed
qed

lemma shrinkBuffer_id: "length (eventsBuffer cc) \<le> n \<Longrightarrow> shrinkBuffer n cc = cc"
  by (simp add: shrinkBuffer.simps [of n cc])

lemma realignBuffer_id:
  "news = [] \<or> eventsBuffer cc = [] \<or> who (news ! 0) = who (eventsBuffer cc ! 0) \<Longrightarrow>
   realignBuffer news cc = cc"
  by (subst realignBuffer.simps) auto

lemma realignBuffer_moves:
  "\<exists>k \<le> length (eventsBuffer cc).
     map oid (events (realignBuffer news cc)) =
       map oid (events cc) @ map oid (take k (eventsBuffer cc)) \<and>
     eventsBuffer (realignBuffer news cc) = drop k (eventsBuffer cc) \<and>
     nextOid (realignBuffer news cc) = nextOid cc"
proof (induction news cc rule: realignBuffer.induct)
  case (1 news cc)
  let ?c = "news \<noteq> [] \<and> eventsBuffer cc \<noteq> [] \<and> who (news ! 0) \<noteq> who (eventsBuffer cc ! 0)"
  show ?case
  proof (cases ?c)
    case True
    then obtain e rest where buf: "eventsBuffer cc = e # rest"
      by (cases "eventsBuffer cc") auto
    have eq: "realignBuffer news cc = realignBuffer news (finalizeOldestBufferedEvent cc)"
      using True by (simp add: realignBuffer.simps [of news cc])
    from True have c1: "news \<noteq> []" and c2: "eventsBuffer cc \<noteq> []"
      and c3: "who (news ! 0) \<noteq> who (eventsBuffer cc ! 0)" by simp_all
    show ?thesis
      unfolding eq by (rule finalize_step_moves [OF buf "1.IH" [OF True]])
  next
    case False
    then have "realignBuffer news cc = cc" by (intro realignBuffer_id) blast
    then show ?thesis by (intro exI [of _ 0]) simp
  qed
qed

lemma realignBuffer_aligned:
  "news \<noteq> [] \<Longrightarrow> eventsBuffer (realignBuffer news cc) \<noteq> [] \<Longrightarrow>
   who (news ! 0) = who (eventsBuffer (realignBuffer news cc) ! 0)"
proof (induction news cc rule: realignBuffer.induct)
  case (1 news cc)
  let ?c = "news \<noteq> [] \<and> eventsBuffer cc \<noteq> [] \<and> who (news ! 0) \<noteq> who (eventsBuffer cc ! 0)"
  show ?case
  proof (cases ?c)
    case True
    have eq: "realignBuffer news cc = realignBuffer news (finalizeOldestBufferedEvent cc)"
      using True by (simp add: realignBuffer.simps [of news cc])
    from True have c1: "news \<noteq> []" and c2: "eventsBuffer cc \<noteq> []"
      and c3: "who (news ! 0) \<noteq> who (eventsBuffer cc ! 0)" by simp_all
    show ?thesis
      using "1.IH" [OF True] "1.prems" unfolding eq by simp
  next
    case False
    then have "realignBuffer news cc = cc" by (intro realignBuffer_id) blast
    with False "1.prems" show ?thesis by auto
  qed
qed

lemma completeFromUpdate_frame:
  assumes "completeFromUpdate self upd sameTime = Inr merged"
  shows "oid merged = oid self" "who merged = who self" "when' merged = when' self"
    "interjection merged = interjection self" "continuation merged = continuation self"
  using assms
  by (auto simp: completeFromUpdate_def Let_def split: sum.splits if_splits)

lemma scanOverlap_self:
  "i \<le> 15 \<Longrightarrow> 15 < length t \<Longrightarrow> scanOverlap t t 15 i 0 i = Inr (True, 0)"
proof (induction "15 - i" arbitrary: i)
  case 0
  then have "i = 15" by simp
  with "0.prems" show ?case by (subst scanOverlap.simps) simp
next
  case (Suc d)
  then have lt: "i < 15" by simp
  from Suc.hyps(2) have d: "d = 15 - (i + 1)" by simp
  have "scanOverlap t t 15 i 0 i = scanOverlap t t 15 (i + 1) 0 (i + 1)"
    using lt Suc.prems by (simp add: scanOverlap.simps [of t t 15 i])
  also have "\<dots> = Inr (True, 0)"
    using lt Suc.prems by (intro Suc.hyps(1) [OF d]) simp_all
  finally show ?case .
qed

lemma mergeStrings_self: "mergeStrings t t 15 = Inr t"
proof (cases "length t < 30")
  case True
  then show ?thesis by (simp add: mergeStrings_def)
next
  case False
  then have "15 < length t" by simp
  then have "scanOverlap t t 15 0 0 0 = Inr (True, 0)"
    by (intro scanOverlap_self) simp_all
  with False show ?thesis by (simp add: mergeStrings_def)
qed

lemma completeFromUpdate_same_text:
  "what self = what upd \<Longrightarrow> completeFromUpdate self upd sameTime = Inr self"
  by (simp add: completeFromUpdate_def Let_def mergeStrings_self)

lemma completeFromUpdate_same_length:
  "length (what self) = length (what upd) \<Longrightarrow>
   completeFromUpdate self upd sameTime = Inr merged \<Longrightarrow>
   howLong merged = howLong self \<and> whenSpokeLast merged = whenSpokeLast self"
  by (auto simp: completeFromUpdate_def Let_def split: sum.splits)

lemma mergeLoop_result:
  "mergeLoop idx news buf = Inr buf' \<Longrightarrow> idx \<le> length buf \<Longrightarrow> length buf \<le> length news \<Longrightarrow>
   length buf' = length news \<and>
   (\<forall>i < idx. buf' ! i = buf ! i) \<and>
   (\<forall>i. idx \<le> i \<and> i < length buf \<longrightarrow>
        completeFromUpdate (buf ! i) (news ! i) (i \<noteq> length news - 1) = Inr (buf' ! i)) \<and>
   (\<forall>i. length buf \<le> i \<and> i < length news \<longrightarrow> buf' ! i = news ! i)"
proof (induction idx news buf rule: mergeLoop.induct)
  case (1 idx news buf)
  show ?case
  proof (cases "idx < length news")
    case False
    with "1.prems" have "buf' = buf" "length buf = length news" "idx = length buf"
      by (simp_all add: mergeLoop.simps [of idx news buf])
    then show ?thesis by auto
  next
    case inNews: True
    show ?thesis
    proof (cases "idx < length buf")
      case inBuf: True
      from "1.prems"(1) inNews inBuf obtain merged where
        m: "completeFromUpdate (buf ! idx) (news ! idx) (idx \<noteq> length news - 1) = Inr merged"
        and rec: "mergeLoop (idx + 1) news (buf[idx := merged]) = Inr buf'"
        by (auto simp: mergeLoop.simps [of idx news buf] split: sum.splits)
      have ih: "length buf' = length news \<and>
         (\<forall>i < idx + 1. buf' ! i = buf[idx := merged] ! i) \<and>
         (\<forall>i. idx + 1 \<le> i \<and> i < length (buf[idx := merged]) \<longrightarrow>
              completeFromUpdate (buf[idx := merged] ! i) (news ! i) (i \<noteq> length news - 1)
                = Inr (buf' ! i)) \<and>
         (\<forall>i. length (buf[idx := merged]) \<le> i \<and> i < length news \<longrightarrow> buf' ! i = news ! i)"
        using "1.IH"(1) [OF inNews inBuf m rec] inBuf "1.prems"(3) by simp
      have at: "buf' ! idx = merged" using ih inBuf by simp
      have before: "\<forall>i < idx. buf' ! i = buf ! i" using ih by simp
      have after: "\<forall>i. idx \<le> i \<and> i < length buf \<longrightarrow>
          completeFromUpdate (buf ! i) (news ! i) (i \<noteq> length news - 1) = Inr (buf' ! i)"
      proof (intro allI impI)
        fix i assume i: "idx \<le> i \<and> i < length buf"
        show "completeFromUpdate (buf ! i) (news ! i) (i \<noteq> length news - 1) = Inr (buf' ! i)"
        proof (cases "i = idx")
          case True
          with m at show ?thesis by simp
        next
          case False
          with i have "idx + 1 \<le> i \<and> i < length (buf[idx := merged])" by simp
          with ih have "completeFromUpdate (buf[idx := merged] ! i) (news ! i)
              (i \<noteq> length news - 1) = Inr (buf' ! i)" by blast
          with False show ?thesis by simp
        qed
      qed
      from ih before after show ?thesis by simp
    next
      case notInBuf: False
      with "1.prems" have idx: "idx = length buf" by simp
      from "1.prems"(1) inNews notInBuf have
        rec: "mergeLoop (idx + 1) news (buf @ [news ! idx]) = Inr buf'"
        by (simp add: mergeLoop.simps [of idx news buf])
      have ih: "length buf' = length news \<and>
         (\<forall>i < idx + 1. buf' ! i = (buf @ [news ! idx]) ! i) \<and>
         (\<forall>i. length (buf @ [news ! idx]) \<le> i \<and> i < length news \<longrightarrow> buf' ! i = news ! i)"
        using "1.IH"(2) [OF inNews notInBuf rec] idx inNews by simp
      have before: "\<forall>i < idx. buf' ! i = buf ! i"
        using ih idx by (auto simp: nth_append)
      have new: "\<forall>i. length buf \<le> i \<and> i < length news \<longrightarrow> buf' ! i = news ! i"
      proof (intro allI impI)
        fix i assume i: "length buf \<le> i \<and> i < length news"
        show "buf' ! i = news ! i"
        proof (cases "i = idx")
          case True
          with ih idx show ?thesis by (simp add: nth_append)
        next
          case False
          with i idx have "length (buf @ [news ! idx]) \<le> i \<and> i < length news" by simp
          with ih show ?thesis by blast
        qed
      qed
      from ih before new idx show ?thesis by auto
    qed
  qed
qed

lemma mergeLoop_unchanged:
  "idx \<le> length buf \<Longrightarrow> length buf = length news \<Longrightarrow>
   (\<forall>i. idx \<le> i \<and> i < length buf \<longrightarrow>
        completeFromUpdate (buf ! i) (news ! i) (i \<noteq> length news - 1) = Inr (buf ! i)) \<Longrightarrow>
   mergeLoop idx news buf = Inr buf"
proof (induction "length buf - idx" arbitrary: idx)
  case 0
  then show ?case by (subst mergeLoop.simps) simp
next
  case (Suc d)
  then have lt: "idx < length buf" by simp
  from Suc.prems lt have
    here: "completeFromUpdate (buf ! idx) (news ! idx) (idx \<noteq> length news - 1) = Inr (buf ! idx)"
    by simp
  have "mergeLoop idx news buf = mergeLoop (idx + 1) news buf"
    using lt Suc.prems(2) here by (simp add: mergeLoop.simps [of idx news buf])
  also have "\<dots> = Inr buf"
    using Suc.hyps(2) lt Suc.prems by (intro Suc.hyps(1)) simp_all
  finally show ?case .
qed

lemma scrapeDialogs_length:
  "length (scrapeDialogs now k dialogs) = length (filter (\<lambda>d. length d = 2) dialogs)"
  by (induction dialogs arbitrary: k) simp_all

lemma scrapeDialogs_oid:
  "map oid (scrapeDialogs now k dialogs) = [k ..< k + length (scrapeDialogs now k dialogs)]"
proof (induction dialogs arbitrary: k)
  case Nil
  show ?case by simp
next
  case (Cons d ds)
  show ?case
  proof (cases "length d = 2")
    case True
    then show ?thesis
      using Cons.IH [of "Suc k"] by (simp add: newClosedCaptionEvent_def Let_def upt_rec)
  next
    case False
    then show ?thesis using Cons.IH [of k] by simp
  qed
qed

lemma scrapeDialogs_who:
  "map who (scrapeDialogs now k dialogs) = map (\<lambda>d. d ! 0) (filter (\<lambda>d. length d = 2) dialogs)"
  by (induction dialogs arbitrary: k) (simp_all add: newClosedCaptionEvent_def Let_def)

lemma scrapeDialogs_what:
  "map what (scrapeDialogs now k dialogs) = map (\<lambda>d. d ! 1) (filter (\<lambda>d. length d = 2) dialogs)"
  by (induction dialogs arbitrary: k) (simp_all add: newClosedCaptionEvent_def Let_def)

lemma mergeLatestCC_unfold:
  assumes run: "mergeLatestCC now dialogs cc = Inr cc'"
  defines "news \<equiv> scrapeDialogs now (nextOid cc) dialogs"
  shows "\<exists>k cc3 buf'. k \<le> length (eventsBuffer cc) \<and>
     map oid (events cc3) = map oid (events cc) @ map oid (take k (eventsBuffer cc)) \<and>
     eventsBuffer cc3 = drop k (eventsBuffer cc) \<and>
     nextOid cc3 = nextOid cc + length news \<and>
     length (eventsBuffer cc3) \<le> length news \<and>
     (news \<noteq> [] \<and> eventsBuffer cc3 \<noteq> [] \<longrightarrow> who (news ! 0) = who (eventsBuffer cc3 ! 0)) \<and>
     mergeLoop 0 news (eventsBuffer cc3) = Inr buf' \<and>
     cc' = cc3\<lparr>eventsBuffer := buf'\<rparr>"
proof -
  let ?n = "length news"
  let ?cc1 = "cc\<lparr>nextOid := nextOid cc + ?n\<rparr>"
  let ?cc2 = "shrinkBuffer ?n ?cc1"
  let ?cc3 = "realignBuffer news ?cc2"
  from shrinkBuffer_moves [of ?cc1 ?n] obtain k1 where k1:
    "k1 \<le> length (eventsBuffer cc)"
    "map oid (events ?cc2) = map oid (events cc) @ map oid (take k1 (eventsBuffer cc))"
    "eventsBuffer ?cc2 = drop k1 (eventsBuffer cc)"
    "nextOid ?cc2 = nextOid cc + ?n"
    by auto
  from realignBuffer_moves [of ?cc2 news] obtain k2 where k2:
    "k2 \<le> length (eventsBuffer ?cc2)"
    "map oid (events ?cc3) = map oid (events ?cc2) @ map oid (take k2 (eventsBuffer ?cc2))"
    "eventsBuffer ?cc3 = drop k2 (eventsBuffer ?cc2)"
    "nextOid ?cc3 = nextOid ?cc2"
    by auto
  have kk: "k1 + k2 \<le> length (eventsBuffer cc)" using k1(1) k2(1) by (simp add: k1(3))
  have ev3: "map oid (events ?cc3) =
      map oid (events cc) @ map oid (take (k1 + k2) (eventsBuffer cc))"
    unfolding k2(2) k1(2) k1(3) by (simp add: take_add)
  have buf3: "eventsBuffer ?cc3 = drop (k1 + k2) (eventsBuffer cc)"
    unfolding k2(3) k1(3) by (simp add: add.commute)
  have len2: "length (eventsBuffer ?cc2) \<le> ?n" by (rule shrinkBuffer_length)
  have len3: "length (eventsBuffer ?cc3) \<le> ?n" using len2 by (simp add: k2(3))
  have al: "news \<noteq> [] \<and> eventsBuffer ?cc3 \<noteq> [] \<longrightarrow> who (news ! 0) = who (eventsBuffer ?cc3 ! 0)"
    using realignBuffer_aligned [of news ?cc2] by blast
  from run len3 obtain buf' where
    loop: "mergeLoop 0 news (eventsBuffer ?cc3) = Inr buf'"
    and res: "cc' = ?cc3\<lparr>eventsBuffer := buf'\<rparr>"
    by (auto simp: mergeLatestCC_def Let_def news_def split: sum.splits)
  have no3: "nextOid ?cc3 = nextOid cc + ?n" using k2(4) k1(4) by simp
  show ?thesis
  proof (intro exI conjI)
    show "k1 + k2 \<le> length (eventsBuffer cc)" by (rule kk)
    show "map oid (events ?cc3) =
      map oid (events cc) @ map oid (take (k1 + k2) (eventsBuffer cc))" by (rule ev3)
    show "eventsBuffer ?cc3 = drop (k1 + k2) (eventsBuffer cc)" by (rule buf3)
    show "nextOid ?cc3 = nextOid cc + ?n" by (rule no3)
    show "length (eventsBuffer ?cc3) \<le> ?n" by (rule len3)
    show "news \<noteq> [] \<and> eventsBuffer ?cc3 \<noteq> [] \<longrightarrow>
      who (news ! 0) = who (eventsBuffer ?cc3 ! 0)" by (rule al)
    show "mergeLoop 0 news (eventsBuffer ?cc3) = Inr buf'" by (rule loop)
    show "cc' = ?cc3\<lparr>eventsBuffer := buf'\<rparr>" by (rule res)
  qed
qed

lemma mergeLoop_oids:
  assumes loop: "mergeLoop 0 news buf = Inr buf'" and len: "length buf \<le> length news"
  shows "map oid buf' = map oid buf @ map oid (drop (length buf) news)"
proof (rule nth_equalityI)
  from mergeLoop_result [OF loop _ len] have
    l: "length buf' = length news"
    and old: "\<And>i. i < length buf \<Longrightarrow>
       completeFromUpdate (buf ! i) (news ! i) (i \<noteq> length news - 1) = Inr (buf' ! i)"
    and new: "\<And>i. length buf \<le> i \<Longrightarrow> i < length news \<Longrightarrow> buf' ! i = news ! i"
    by simp_all
  show "length (map oid buf') = length (map oid buf @ map oid (drop (length buf) news))"
    using l len by simp
  fix i assume "i < length (map oid buf')"
  then have i: "i < length news" using l by simp
  show "map oid buf' ! i = (map oid buf @ map oid (drop (length buf) news)) ! i"
  proof (cases "i < length buf")
    case True
    then show ?thesis
      using completeFromUpdate_frame(1) [OF old [OF True]] i l by (simp add: nth_append)
  next
    case False
    then show ?thesis
      using new [of i] i l len by (simp add: nth_append)
  qed
qed

lemma mergeLatestCC_containers:
  "identitiesOk cc \<Longrightarrow> mergeLatestCC now dialogs cc = Inr cc' \<Longrightarrow>
   length (eventsBuffer cc') = length (filter (\<lambda>d. length d = 2) dialogs) \<and>
   set (map oid (events cc')) \<inter> set (map oid (eventsBuffer cc')) = {} \<and>
   identitiesOk cc' \<and>
   (\<exists>k \<le> length (eventsBuffer cc).
      map oid (events cc') = map oid (events cc) @ map oid (take k (eventsBuffer cc)) \<and>
      map oid (eventsBuffer cc') =
        map oid (drop k (eventsBuffer cc))
          @ [nextOid cc + (length (eventsBuffer cc) - k) ..< nextOid cc'])"
proof -
  assume ok: "identitiesOk cc" and run: "mergeLatestCC now dialogs cc = Inr cc'"
  define news where "news = scrapeDialogs now (nextOid cc) dialogs"
  from mergeLatestCC_unfold [OF run] obtain k cc3 buf' where
    k: "k \<le> length (eventsBuffer cc)"
    and ev3: "map oid (events cc3) = map oid (events cc) @ map oid (take k (eventsBuffer cc))"
    and buf3: "eventsBuffer cc3 = drop k (eventsBuffer cc)"
    and no3: "nextOid cc3 = nextOid cc + length news"
    and len3: "length (eventsBuffer cc3) \<le> length news"
    and loop: "mergeLoop 0 news (eventsBuffer cc3) = Inr buf'"
    and res: "cc' = cc3\<lparr>eventsBuffer := buf'\<rparr>"
    unfolding news_def by blast
  let ?m = "length (eventsBuffer cc) - k"
  have m: "length (eventsBuffer cc3) = ?m" by (simp add: buf3)
  have newoids: "map oid (drop ?m news) = [nextOid cc + ?m ..< nextOid cc + length news]"
    using scrapeDialogs_oid [of now "nextOid cc" dialogs]
    by (simp add: news_def drop_map [symmetric] drop_upt)
  have bufoids: "map oid buf' =
      map oid (drop k (eventsBuffer cc)) @ [nextOid cc + ?m ..< nextOid cc + length news]"
    using mergeLoop_oids [OF loop len3] newoids by (simp add: buf3)
  have evs': "map oid (events cc') = map oid (events cc) @ map oid (take k (eventsBuffer cc))"
    by (simp add: res ev3)
  have no': "nextOid cc' = nextOid cc + length news" by (simp add: res no3)
  have all: "map oid (events cc' @ eventsBuffer cc') =
      map oid (events cc @ eventsBuffer cc) @ [nextOid cc + ?m ..< nextOid cc + length news]"
  proof -
    have "map oid (events cc' @ eventsBuffer cc') =
        map oid (events cc) @ (map oid (take k (eventsBuffer cc)) @ map oid (drop k (eventsBuffer cc)))
          @ [nextOid cc + ?m ..< nextOid cc + length news]"
      by (simp add: res ev3 bufoids)
    also have "map oid (take k (eventsBuffer cc)) @ map oid (drop k (eventsBuffer cc)) =
        map oid (eventsBuffer cc)"
      by (simp only: map_append [symmetric] append_take_drop_id)
    finally show ?thesis by simp
  qed
  from ok have dist: "distinct (map oid (events cc @ eventsBuffer cc))"
    and below: "\<forall>x \<in> set (map oid (events cc @ eventsBuffer cc)). x < nextOid cc"
    by (auto simp: identitiesOk_def list_all_iff)
  have disj: "x \<notin> set [nextOid cc + ?m ..< nextOid cc + length news]"
    if "x \<in> set (map oid (events cc @ eventsBuffer cc))" for x
  proof -
    from that below have "x < nextOid cc" by blast
    then show ?thesis by simp
  qed
  have dist': "distinct (map oid (events cc' @ eventsBuffer cc'))"
    unfolding all distinct_append
  proof (intro conjI)
    show "distinct (map oid (events cc @ eventsBuffer cc))" by (rule dist)
    show "distinct [nextOid cc + ?m ..< nextOid cc + length news]" by simp
    show "set (map oid (events cc @ eventsBuffer cc))
            \<inter> set [nextOid cc + ?m ..< nextOid cc + length news] = {}"
      using disj by blast
  qed
  have below': "\<forall>x \<in> set (map oid (events cc' @ eventsBuffer cc')). x < nextOid cc'"
    unfolding all no'
  proof
    fix x
    assume "x \<in> set (map oid (events cc @ eventsBuffer cc)
                      @ [nextOid cc + ?m ..< nextOid cc + length news])"
    then consider "x \<in> set (map oid (events cc @ eventsBuffer cc))"
      | "x \<in> set [nextOid cc + ?m ..< nextOid cc + length news]"
      by (simp only: set_append) blast
    then show "x < nextOid cc + length news"
    proof cases
      case 1
      with below have "x < nextOid cc" by blast
      then show ?thesis by simp
    next
      case 2
      then show ?thesis by simp
    qed
  qed
  have ok': "identitiesOk cc'"
    using dist' below' by (auto simp: identitiesOk_def list_all_iff)
  have apart: "set (map oid (events cc')) \<inter> set (map oid (eventsBuffer cc')) = {}"
    using dist' by (simp only: map_append distinct_append)
  have len': "length (eventsBuffer cc') = length (filter (\<lambda>d. length d = 2) dialogs)"
    using mergeLoop_result [OF loop _ len3]
    by (simp add: res news_def scrapeDialogs_length)
  have moved: "\<exists>k \<le> length (eventsBuffer cc).
      map oid (events cc') = map oid (events cc) @ map oid (take k (eventsBuffer cc)) \<and>
      map oid (eventsBuffer cc') =
        map oid (drop k (eventsBuffer cc))
          @ [nextOid cc + (length (eventsBuffer cc) - k) ..< nextOid cc']"
    using k evs' bufoids by (intro exI [of _ k]) (simp add: res no3)
  from len' apart ok' moved show ?thesis by blast
qed

lemma mergeLatestCC_post:
  assumes run: "mergeLatestCC now dialogs cc = Inr cc'"
  defines "news \<equiv> scrapeDialogs now (nextOid cc) dialogs"
  shows "length (eventsBuffer cc') = length news"
    and "news \<noteq> [] \<Longrightarrow> who (eventsBuffer cc' ! 0) = who (news ! 0)"
proof -
  from mergeLatestCC_unfold [OF run] obtain cc3 buf' where
    len3: "length (eventsBuffer cc3) \<le> length news"
    and al: "news \<noteq> [] \<and> eventsBuffer cc3 \<noteq> [] \<longrightarrow> who (news ! 0) = who (eventsBuffer cc3 ! 0)"
    and loop: "mergeLoop 0 news (eventsBuffer cc3) = Inr buf'"
    and res: "cc' = cc3\<lparr>eventsBuffer := buf'\<rparr>"
    unfolding news_def by blast
  from mergeLoop_result [OF loop _ len3] have
    l: "length buf' = length news"
    and old: "\<And>i. i < length (eventsBuffer cc3) \<Longrightarrow>
       completeFromUpdate (eventsBuffer cc3 ! i) (news ! i) (i \<noteq> length news - 1)
         = Inr (buf' ! i)"
    and new: "\<And>i. length (eventsBuffer cc3) \<le> i \<Longrightarrow> i < length news \<Longrightarrow> buf' ! i = news ! i"
    by simp_all
  show "length (eventsBuffer cc') = length news" by (simp add: res l)
  show "who (eventsBuffer cc' ! 0) = who (news ! 0)" if ne: "news \<noteq> []"
  proof (cases "eventsBuffer cc3 = []")
    case True
    with new [of 0] ne show ?thesis by (simp add: res)
  next
    case False
    then have "0 < length (eventsBuffer cc3)" by simp
    from completeFromUpdate_frame(2) [OF old [OF this]] al ne False
    show ?thesis by (simp add: res)
  qed
qed

lemma mergeLatestCC_aligned:
  assumes "length (eventsBuffer cc) = length (scrapeDialogs now (nextOid cc) dialogs)"
    and "scrapeDialogs now (nextOid cc) dialogs \<noteq> [] \<Longrightarrow>
         who (eventsBuffer cc ! 0) = who (scrapeDialogs now (nextOid cc) dialogs ! 0)"
  shows "mergeLatestCC now dialogs cc =
     (case mergeLoop 0 (scrapeDialogs now (nextOid cc) dialogs) (eventsBuffer cc) of
        Inl e \<Rightarrow> Inl e
      | Inr buffer \<Rightarrow>
          Inr (cc\<lparr>nextOid := nextOid cc + length (scrapeDialogs now (nextOid cc) dialogs),
                   eventsBuffer := buffer\<rparr>))"
proof -
  let ?news = "scrapeDialogs now (nextOid cc) dialogs"
  let ?cc1 = "cc\<lparr>nextOid := nextOid cc + length ?news\<rparr>"
  have s: "shrinkBuffer (length ?news) ?cc1 = ?cc1"
    using assms(1) by (intro shrinkBuffer_id) simp
  have r: "realignBuffer ?news ?cc1 = ?cc1"
    using assms(2) by (intro realignBuffer_id) auto
  show ?thesis
    using assms(1) by (simp add: mergeLatestCC_def Let_def s r split: sum.splits)
qed

lemma scrapeDialogs_nth_who:
  "i < length (scrapeDialogs now k dialogs) \<Longrightarrow>
   who (scrapeDialogs now k dialogs ! i) = filter (\<lambda>d. length d = 2) dialogs ! i ! 0"
  using scrapeDialogs_who [of now k dialogs]
  by (metis (no_types, lifting) length_map nth_map scrapeDialogs_length)

lemma scrapeDialogs_nth_what:
  "i < length (scrapeDialogs now k dialogs) \<Longrightarrow>
   what (scrapeDialogs now k dialogs ! i) = filter (\<lambda>d. length d = 2) dialogs ! i ! 1"
  using scrapeDialogs_what [of now k dialogs]
  by (metis (no_types, lifting) length_map nth_map scrapeDialogs_length)

lemma identitiesOk_newClosedCaptions: "identitiesOk newClosedCaptions"
  by (simp add: identitiesOk_def newClosedCaptions_def)

lemma mergeAll_identitiesOk:
  "identitiesOk cc \<Longrightarrow> mergeAll rounds cc = Inr cc' \<Longrightarrow> identitiesOk cc'"
proof (induction rounds arbitrary: cc)
  case Nil
  then show ?case by simp
next
  case (Cons round rounds)
  obtain now dialogs where round: "round = (now, dialogs)" by (cases round)
  from Cons.prems(2) round obtain cc1 where
    step: "mergeLatestCC now dialogs cc = Inr cc1" and rest: "mergeAll rounds cc1 = Inr cc'"
    by (auto split: sum.splits)
  from mergeLatestCC_containers [OF Cons.prems(1) step] have "identitiesOk cc1" by blast
  then show ?case using rest by (rule Cons.IH)
qed

text \<open>
  Claim C7. When \<^verbatim>\<open>mergeLatestCC\<close> returns, the buffer has as many turns as the panel
  has well-formed lines. When the turns held before the call are distinct objects, no
  object is in both the buffer and the finalized list afterwards and the turns held are
  distinct objects again; the finalized list has gained the first \<open>k\<close> objects of the old
  buffer, in order, and the buffer is made of the remaining old objects followed by
  objects created by this call: each finalized turn has moved from one container to the
  other. This holds after every call of a run that starts from the empty engine.
\<close>

theorem reconcile_keeps_containers_apart:
  "(mergeLatestCC now dialogs cc = Inr cc' \<longrightarrow>
      length (eventsBuffer cc') = length (filter (\<lambda>d. length d = 2) dialogs) \<and>
      (identitiesOk cc \<longrightarrow>
         set (map oid (events cc')) \<inter> set (map oid (eventsBuffer cc')) = {} \<and>
         identitiesOk cc' \<and>
         (\<exists>k \<le> length (eventsBuffer cc).
            map oid (events cc') = map oid (events cc) @ map oid (take k (eventsBuffer cc)) \<and>
            map oid (eventsBuffer cc') =
              map oid (drop k (eventsBuffer cc))
                @ [nextOid cc + (length (eventsBuffer cc) - k) ..< nextOid cc']))) \<and>
   (mergeAll rounds newClosedCaptions = Inr cc2 \<longrightarrow>
      identitiesOk cc2 \<and>
      set (map oid (events cc2)) \<inter> set (map oid (eventsBuffer cc2)) = {})"
proof (intro conjI impI)
  assume run: "mergeLatestCC now dialogs cc = Inr cc'"
  show "length (eventsBuffer cc') = length (filter (\<lambda>d. length d = 2) dialogs)"
    using mergeLatestCC_post(1) [OF run] by (simp add: scrapeDialogs_length)
  assume ok: "identitiesOk cc"
  note step = mergeLatestCC_containers [OF ok run]
  from step show "set (map oid (events cc')) \<inter> set (map oid (eventsBuffer cc')) = {}"
    by blast
  from step show "identitiesOk cc'" by blast
  from step show "\<exists>k \<le> length (eventsBuffer cc).
      map oid (events cc') = map oid (events cc) @ map oid (take k (eventsBuffer cc)) \<and>
      map oid (eventsBuffer cc') =
        map oid (drop k (eventsBuffer cc))
          @ [nextOid cc + (length (eventsBuffer cc) - k) ..< nextOid cc']"
    by blast
next
  assume "mergeAll rounds newClosedCaptions = Inr cc2"
  with identitiesOk_newClosedCaptions show ok2: "identitiesOk cc2"
    by (rule mergeAll_identitiesOk)
  then have "distinct (map oid (events cc2 @ eventsBuffer cc2))"
    by (simp add: identitiesOk_def)
  then show "set (map oid (events cc2)) \<inter> set (map oid (eventsBuffer cc2)) = {}"
    by (simp only: map_append distinct_append)
qed

lemma completeFromUpdate_sameTime:
  "completeFromUpdate self upd True = Inr merged \<Longrightarrow>
   howLong merged = howLong self \<and> whenSpokeLast merged = whenSpokeLast self"
  by (auto simp: completeFromUpdate_def Let_def split: sum.splits)

lemma completeFromUpdate_what:
  "completeFromUpdate self upd sameTime = Inr merged \<Longrightarrow>
   mergeStrings (what self) (what upd) 15 = Inr (what merged)"
  by (auto simp: completeFromUpdate_def Let_def split: sum.splits if_splits)

text \<open>
  Claim C5, amended. After \<^verbatim>\<open>mergeLatestCC\<close> has returned, a second call with the same
  panel content (at any time), when it returns, leaves the finalized list unchanged and
  keeps the length of the buffer and, for every buffered turn, the object, the speaker,
  the start time and the two flags. Every turn but the last keeps its duration and the
  time of its last update, and so does the last turn when its text has the length of
  its panel line. The text of a turn becomes the merge of its text with its panel line;
  a turn whose text equals its panel line is unchanged. When every buffered text equals
  its panel line, the second call returns and leaves both containers as they were.
\<close>

theorem reconcile_same_snapshot_again:
  "mergeLatestCC now1 dialogs cc = Inr cc1 \<Longrightarrow>
   (mergeLatestCC now2 dialogs cc1 = Inr cc2 \<longrightarrow>
      events cc2 = events cc1 \<and>
      length (eventsBuffer cc2) = length (eventsBuffer cc1) \<and>
      (\<forall>i < length (eventsBuffer cc1).
         oid (eventsBuffer cc2 ! i) = oid (eventsBuffer cc1 ! i) \<and>
         who (eventsBuffer cc2 ! i) = who (eventsBuffer cc1 ! i) \<and>
         when' (eventsBuffer cc2 ! i) = when' (eventsBuffer cc1 ! i) \<and>
         interjection (eventsBuffer cc2 ! i) = interjection (eventsBuffer cc1 ! i) \<and>
         continuation (eventsBuffer cc2 ! i) = continuation (eventsBuffer cc1 ! i) \<and>
         (i + 1 < length (eventsBuffer cc1) \<or>
          length (what (eventsBuffer cc1 ! i))
            = length (filter (\<lambda>d. length d = 2) dialogs ! i ! 1) \<longrightarrow>
          howLong (eventsBuffer cc2 ! i) = howLong (eventsBuffer cc1 ! i) \<and>
          whenSpokeLast (eventsBuffer cc2 ! i) = whenSpokeLast (eventsBuffer cc1 ! i)) \<and>
         mergeStrings (what (eventsBuffer cc1 ! i))
             (filter (\<lambda>d. length d = 2) dialogs ! i ! 1) 15
           = Inr (what (eventsBuffer cc2 ! i)) \<and>
         (what (eventsBuffer cc1 ! i) = filter (\<lambda>d. length d = 2) dialogs ! i ! 1 \<longrightarrow>
          eventsBuffer cc2 ! i = eventsBuffer cc1 ! i))) \<and>
   ((\<forall>i < length (eventsBuffer cc1).
       what (eventsBuffer cc1 ! i) = filter (\<lambda>d. length d = 2) dialogs ! i ! 1) \<longrightarrow>
    (\<exists>cc2'. mergeLatestCC now2 dialogs cc1 = Inr cc2' \<and>
            events cc2' = events cc1 \<and> eventsBuffer cc2' = eventsBuffer cc1))"
proof -
  assume run1: "mergeLatestCC now1 dialogs cc = Inr cc1"
  let ?news1 = "scrapeDialogs now1 (nextOid cc) dialogs"
  let ?news2 = "scrapeDialogs now2 (nextOid cc1) dialogs"
  let ?lines = "filter (\<lambda>d. length d = 2) dialogs"
  let ?buf1 = "eventsBuffer cc1"
  have n1: "length ?buf1 = length ?news1" by (rule mergeLatestCC_post(1) [OF run1])
  have n2: "length ?news2 = length ?news1" by (simp add: scrapeDialogs_length)
  have len: "length ?buf1 = length ?news2" using n1 n2 by simp
  have head: "who (?buf1 ! 0) = who (?news2 ! 0)" if ne: "?news2 \<noteq> []"
  proof -
    from ne n2 have ne1: "?news1 \<noteq> []" by auto
    then have "0 < length ?news1" by simp
    moreover from ne have "0 < length ?news2" by simp
    ultimately have "who (?news1 ! 0) = who (?news2 ! 0)"
      by (simp add: scrapeDialogs_nth_who)
    with mergeLatestCC_post(2) [OF run1 ne1] show ?thesis by simp
  qed
  have call2: "mergeLatestCC now2 dialogs cc1 =
     (case mergeLoop 0 ?news2 ?buf1 of
        Inl e \<Rightarrow> Inl e
      | Inr buffer \<Rightarrow>
          Inr (cc1\<lparr>nextOid := nextOid cc1 + length ?news2, eventsBuffer := buffer\<rparr>))"
    by (rule mergeLatestCC_aligned [OF len head])
  have text2: "what (?news2 ! i) = ?lines ! i ! 1" if "i < length ?buf1" for i
    using that len by (simp add: scrapeDialogs_nth_what)
  have partA: "events cc2 = events cc1 \<and>
      length (eventsBuffer cc2) = length ?buf1 \<and>
      (\<forall>i < length ?buf1.
         oid (eventsBuffer cc2 ! i) = oid (?buf1 ! i) \<and>
         who (eventsBuffer cc2 ! i) = who (?buf1 ! i) \<and>
         when' (eventsBuffer cc2 ! i) = when' (?buf1 ! i) \<and>
         interjection (eventsBuffer cc2 ! i) = interjection (?buf1 ! i) \<and>
         continuation (eventsBuffer cc2 ! i) = continuation (?buf1 ! i) \<and>
         (i + 1 < length ?buf1 \<or> length (what (?buf1 ! i)) = length (?lines ! i ! 1) \<longrightarrow>
          howLong (eventsBuffer cc2 ! i) = howLong (?buf1 ! i) \<and>
          whenSpokeLast (eventsBuffer cc2 ! i) = whenSpokeLast (?buf1 ! i)) \<and>
         mergeStrings (what (?buf1 ! i)) (?lines ! i ! 1) 15
           = Inr (what (eventsBuffer cc2 ! i)) \<and>
         (what (?buf1 ! i) = ?lines ! i ! 1 \<longrightarrow> eventsBuffer cc2 ! i = ?buf1 ! i))"
    if run2: "mergeLatestCC now2 dialogs cc1 = Inr cc2"
  proof -
    from run2 call2 obtain b where
      loop: "mergeLoop 0 ?news2 ?buf1 = Inr b"
      and res: "cc2 = cc1\<lparr>nextOid := nextOid cc1 + length ?news2, eventsBuffer := b\<rparr>"
      by (auto split: sum.splits)
    from mergeLoop_result [OF loop] len have
      l: "length b = length ?news2"
      and upd: "\<And>i. i < length ?buf1 \<Longrightarrow>
         completeFromUpdate (?buf1 ! i) (?news2 ! i) (i \<noteq> length ?news2 - 1) = Inr (b ! i)"
      by simp_all
    have each: "oid (b ! i) = oid (?buf1 ! i) \<and>
         who (b ! i) = who (?buf1 ! i) \<and>
         when' (b ! i) = when' (?buf1 ! i) \<and>
         interjection (b ! i) = interjection (?buf1 ! i) \<and>
         continuation (b ! i) = continuation (?buf1 ! i) \<and>
         (i + 1 < length ?buf1 \<or> length (what (?buf1 ! i)) = length (?lines ! i ! 1) \<longrightarrow>
          howLong (b ! i) = howLong (?buf1 ! i) \<and>
          whenSpokeLast (b ! i) = whenSpokeLast (?buf1 ! i)) \<and>
         mergeStrings (what (?buf1 ! i)) (?lines ! i ! 1) 15 = Inr (what (b ! i)) \<and>
         (what (?buf1 ! i) = ?lines ! i ! 1 \<longrightarrow> b ! i = ?buf1 ! i)"
      if i: "i < length ?buf1" for i
    proof -
      note u = upd [OF i]
      note t = text2 [OF i]
      have same: "b ! i = ?buf1 ! i" if "what (?buf1 ! i) = ?lines ! i ! 1"
        using completeFromUpdate_same_text [of "?buf1 ! i" "?news2 ! i"] u that t by simp
      have triv: "howLong (b ! i) = howLong (?buf1 ! i) \<and>
          whenSpokeLast (b ! i) = whenSpokeLast (?buf1 ! i)"
        if "length (what (?buf1 ! i)) = length (?lines ! i ! 1)"
        using completeFromUpdate_same_length [OF _ u] that t by simp
      have notLast: "howLong (b ! i) = howLong (?buf1 ! i) \<and>
          whenSpokeLast (b ! i) = whenSpokeLast (?buf1 ! i)"
        if "i + 1 < length ?buf1"
      proof -
        from that len have "(i \<noteq> length ?news2 - 1) = True" by simp
        with u have "completeFromUpdate (?buf1 ! i) (?news2 ! i) True = Inr (b ! i)"
          by simp
        then show ?thesis by (rule completeFromUpdate_sameTime)
      qed
      have mtext: "mergeStrings (what (?buf1 ! i)) (?lines ! i ! 1) 15 = Inr (what (b ! i))"
        using completeFromUpdate_what [OF u] t by simp
      show ?thesis
        using completeFromUpdate_frame [OF u] same triv notLast mtext by blast
    qed
    show ?thesis using each l len by (simp add: res)
  qed
  have partB: "\<exists>cc2'. mergeLatestCC now2 dialogs cc1 = Inr cc2' \<and>
            events cc2' = events cc1 \<and> eventsBuffer cc2' = ?buf1"
    if eq: "\<forall>i < length ?buf1. what (?buf1 ! i) = ?lines ! i ! 1"
  proof -
    have "\<forall>i. 0 \<le> i \<and> i < length ?buf1 \<longrightarrow>
        completeFromUpdate (?buf1 ! i) (?news2 ! i) (i \<noteq> length ?news2 - 1) = Inr (?buf1 ! i)"
      using eq text2 by (simp add: completeFromUpdate_same_text)
    then have "mergeLoop 0 ?news2 ?buf1 = Inr ?buf1"
      using len by (intro mergeLoop_unchanged) simp_all
    then show ?thesis by (simp add: call2)
  qed
  from partA partB show ?thesis by blast
qed

theorem reconcile_keeps_containers_apart_witness:
  "identitiesOk
     \<lparr>events = [],
      eventsBuffer =
        [\<lparr>oid = 0, when' = 900, whenSpokeLast = 1000, who = ''A'', what = ''Hello'',
          howLong = 100, interjection = False, continuation = False\<rparr>,
         \<lparr>oid = 1, when' = 1900, whenSpokeLast = 2000, who = ''B'', what = ''fine'',
          howLong = 100, interjection = False, continuation = False\<rparr>],
      nextOid = 2\<rparr> \<and>
   mergeLatestCC 5000 [[''B'', ''fine''], [''C'', ''ok then''], [''x'']]
     \<lparr>events = [],
      eventsBuffer =
        [\<lparr>oid = 0, when' = 900, whenSpokeLast = 1000, who = ''A'', what = ''Hello'',
          howLong = 100, interjection = False, continuation = False\<rparr>,
         \<lparr>oid = 1, when' = 1900, whenSpokeLast = 2000, who = ''B'', what = ''fine'',
          howLong = 100, interjection = False, continuation = False\<rparr>],
      nextOid = 2\<rparr>
   = Inr \<lparr>events =
            [\<lparr>oid = 0, when' = 900, whenSpokeLast = 1000, who = ''A'', what = ''Hello'',
              howLong = 100, interjection = False, continuation = False\<rparr>],
          eventsBuffer =
            [\<lparr>oid = 1, when' = 1900, whenSpokeLast = 2000, who = ''B'', what = ''fine'',
              howLong = 100, interjection = False, continuation = False\<rparr>,
             \<lparr>oid = 3, when' = 4800, whenSpokeLast = 5000, who = ''C'', what = ''ok then'',
              howLong = 200, interjection = False, continuation = False\<rparr>],
          nextOid = 4\<rparr> \<and>
   identitiesOk
     \<lparr>events =
        [\<lparr>oid = 0, when' = 900, whenSpokeLast = 1000, who = ''A'', what = ''Hello'',
          howLong = 100, interjection = False, continuation = False\<rparr>],
      eventsBuffer =
        [\<lparr>oid = 1, when' = 1900, whenSpokeLast = 2000, who = ''B'', what = ''fine'',
          howLong = 100, interjection = False, continuation = False\<rparr>,
         \<lparr>oid = 3, when' = 4800, whenSpokeLast = 5000, who = ''C'', what = ''ok then'',
          howLong = 200, interjection = False, continuation = False\<rparr>],
      nextOid = 4\<rparr>"
proof -
  let ?cc = "\<lparr>events = [],
      eventsBuffer =
        [\<lparr>oid = 0, when' = 900, whenSpokeLast = 1000, who = ''A'', what = ''Hello'',
          howLong = 100, interjection = False, continuation = False\<rparr>,
         \<lparr>oid = 1, when' = 1900, whenSpokeLast = 2000, who = ''B'', what = ''fine'',
          howLong = 100, interjection = False, continuation = False\<rparr>],
      nextOid = 2\<rparr>"
  let ?cc' = "\<lparr>events =
        [\<lparr>oid = 0, when' = 900, whenSpokeLast = 1000, who = ''A'', what = ''Hello'',
          howLong = 100, interjection = False, continuation = False\<rparr>],
      eventsBuffer =
        [\<lparr>oid = 1, when' = 1900, whenSpokeLast = 2000, who = ''B'', what = ''fine'',
          howLong = 100, interjection = False, continuation = False\<rparr>,
         \<lparr>oid = 3, when' = 4800, whenSpokeLast = 5000, who = ''C'', what = ''ok then'',
          howLong = 200, interjection = False, continuation = False\<rparr>],
      nextOid = 4\<rparr>"
  have ok: "identitiesOk ?cc" by (simp add: identitiesOk_def)
  have run: "mergeLatestCC 5000 [[''B'', ''fine''], [''C'', ''ok then''], [''x'']] ?cc = Inr ?cc'"
    by code_simp
  from reconcile_keeps_containers_apart
         [of 5000 "[[''B'', ''fine''], [''C'', ''ok then''], [''x'']]" ?cc ?cc'] ok run
  have "identitiesOk ?cc'" by blast
  with ok run show ?thesis by blast
qed

theorem reconcile_same_snapshot_again_witness:
  "mergeLatestCC 1000 [[''A'', ''Hello'']] newClosedCaptions =
     Inr \<lparr>events = [],
          eventsBuffer =
            [\<lparr>oid = 0, when' = 900, whenSpokeLast = 1000, who = ''A'', what = ''Hello'',
              howLong = 100, interjection = False, continuation = False\<rparr>],
          nextOid = 1\<rparr> \<and>
   (\<exists>cc2. mergeLatestCC 2000 [[''A'', ''Hello'']]
            \<lparr>events = [],
             eventsBuffer =
               [\<lparr>oid = 0, when' = 900, whenSpokeLast = 1000, who = ''A'', what = ''Hello'',
                 howLong = 100, interjection = False, continuation = False\<rparr>],
             nextOid = 1\<rparr> = Inr cc2 \<and>
          events cc2 = [] \<and>
          eventsBuffer cc2 =
            [\<lparr>oid = 0, when' = 900, whenSpokeLast = 1000, who = ''A'', what = ''Hello'',
              howLong = 100, interjection = False, continuation = False\<rparr>]) \<and>
   (\<exists>cc1 cc2.
      mergeLatestCC 2000 [[''A'', ''I think we should''],
                          [''B'', ''brown fox jumps over the lazy dog and runs away'']]
        \<lparr>events = [],
         eventsBuffer =
           [\<lparr>oid = 0, when' = 200, whenSpokeLast = 1000, who = ''A'',
             what = ''well I think we should go ahead now'',
             howLong = 800, interjection = False, continuation = False\<rparr>,
            \<lparr>oid = 1, when' = 100, whenSpokeLast = 1000, who = ''B'',
             what = ''the quick brown fox jumps over the lazy dog'',
             howLong = 900, interjection = False, continuation = False\<rparr>],
         nextOid = 2\<rparr> = Inr cc1 \<and>
      mergeLatestCC 3000 [[''A'', ''I think we should''],
                          [''B'', ''brown fox jumps over the lazy dog and runs away'']] cc1
        = Inr cc2 \<and>
      length (eventsBuffer cc1) = 2 \<and>
      events cc2 = events cc1 \<and>
      length (eventsBuffer cc2) = length (eventsBuffer cc1) \<and>
      howLong (eventsBuffer cc2 ! 0) = howLong (eventsBuffer cc1 ! 0) \<and>
      whenSpokeLast (eventsBuffer cc2 ! 0) = whenSpokeLast (eventsBuffer cc1 ! 0) \<and>
      who (eventsBuffer cc2 ! 1) = who (eventsBuffer cc1 ! 1) \<and>
      when' (eventsBuffer cc2 ! 1) = when' (eventsBuffer cc1 ! 1))"
proof -
  let ?cc1 = "\<lparr>events = [],
          eventsBuffer =
            [\<lparr>oid = 0, when' = 900, whenSpokeLast = 1000, who = ''A'', what = ''Hello'',
              howLong = 100, interjection = False, continuation = False\<rparr>],
          nextOid = 1\<rparr>"
  have run1: "mergeLatestCC 1000 [[''A'', ''Hello'']] newClosedCaptions = Inr ?cc1"
    by code_simp
  have same: "\<forall>i < length (eventsBuffer ?cc1).
       what (eventsBuffer ?cc1 ! i) = filter (\<lambda>d. length d = 2) [[''A'', ''Hello'']] ! i ! 1"
    by simp
  from reconcile_same_snapshot_again [OF run1, of 2000] same
  have "\<exists>cc2. mergeLatestCC 2000 [[''A'', ''Hello'']] ?cc1 = Inr cc2 \<and>
            events cc2 = events ?cc1 \<and> eventsBuffer cc2 = eventsBuffer ?cc1"
    by blast
  then have first: "\<exists>cc2. mergeLatestCC 2000 [[''A'', ''Hello'']] ?cc1 = Inr cc2 \<and>
          events cc2 = [] \<and>
          eventsBuffer cc2 =
            [\<lparr>oid = 0, when' = 900, whenSpokeLast = 1000, who = ''A'', what = ''Hello'',
              howLong = 100, interjection = False, continuation = False\<rparr>]"
    by simp
  let ?d = "[[''A'', ''I think we should''],
             [''B'', ''brown fox jumps over the lazy dog and runs away'']]"
  let ?s0 = "\<lparr>events = [],
         eventsBuffer =
           [\<lparr>oid = 0, when' = 200, whenSpokeLast = 1000, who = ''A'',
             what = ''well I think we should go ahead now'',
             howLong = 800, interjection = False, continuation = False\<rparr>,
            \<lparr>oid = 1, when' = 100, whenSpokeLast = 1000, who = ''B'',
             what = ''the quick brown fox jumps over the lazy dog'',
             howLong = 900, interjection = False, continuation = False\<rparr>],
         nextOid = 2\<rparr>"
  let ?s1 = "\<lparr>events = [],
          eventsBuffer =
            [\<lparr>oid = 0, when' = 200, whenSpokeLast = 1000, who = ''A'',
              what = ''well I think we should'',
              howLong = 800, interjection = False, continuation = False\<rparr>,
             \<lparr>oid = 1, when' = 100, whenSpokeLast = 1000, who = ''B'',
              what = ''the quick brown fox jumps over the lazy dog and runs away'',
              howLong = 1900, interjection = False, continuation = False\<rparr>],
          nextOid = 4\<rparr>"
  let ?s2 = "\<lparr>events = [],
          eventsBuffer =
            [\<lparr>oid = 0, when' = 200, whenSpokeLast = 1000, who = ''A'',
              what = ''I think we should'',
              howLong = 800, interjection = False, continuation = False\<rparr>,
             \<lparr>oid = 1, when' = 100, whenSpokeLast = 2000, who = ''B'',
              what = ''the quick brown fox jumps over the lazy dog and runs away'',
              howLong = 3900, interjection = False, continuation = False\<rparr>],
          nextOid = 6\<rparr>"
  have r1: "mergeLatestCC 2000 ?d ?s0 = Inr ?s1" by code_simp
  have r2: "mergeLatestCC 3000 ?d ?s1 = Inr ?s2" by code_simp
  have l1: "length (eventsBuffer ?s1) = 2" by simp
  from reconcile_same_snapshot_again [OF r1, of 3000 ?s2] r2
  have a: "events ?s2 = events ?s1 \<and>
      length (eventsBuffer ?s2) = length (eventsBuffer ?s1) \<and>
      (\<forall>i < length (eventsBuffer ?s1).
         oid (eventsBuffer ?s2 ! i) = oid (eventsBuffer ?s1 ! i) \<and>
         who (eventsBuffer ?s2 ! i) = who (eventsBuffer ?s1 ! i) \<and>
         when' (eventsBuffer ?s2 ! i) = when' (eventsBuffer ?s1 ! i) \<and>
         interjection (eventsBuffer ?s2 ! i) = interjection (eventsBuffer ?s1 ! i) \<and>
         continuation (eventsBuffer ?s2 ! i) = continuation (eventsBuffer ?s1 ! i) \<and>
         (i + 1 < length (eventsBuffer ?s1) \<or>
          length (what (eventsBuffer ?s1 ! i))
            = length (filter (\<lambda>d. length d = 2) ?d ! i ! 1) \<longrightarrow>
          howLong (eventsBuffer ?s2 ! i) = howLong (eventsBuffer ?s1 ! i) \<and>
          whenSpokeLast (eventsBuffer ?s2 ! i) = whenSpokeLast (eventsBuffer ?s1 ! i)) \<and>
         mergeStrings (what (eventsBuffer ?s1 ! i))
             (filter (\<lambda>d. length d = 2) ?d ! i ! 1) 15
           = Inr (what (eventsBuffer ?s2 ! i)) \<and>
         (what (eventsBuffer ?s1 ! i) = filter (\<lambda>d. length d = 2) ?d ! i ! 1 \<longrightarrow>
          eventsBuffer ?s2 ! i = eventsBuffer ?s1 ! i))"
    by blast
  have second: "\<exists>cc1 cc2.
      mergeLatestCC 2000 ?d ?s0 = Inr cc1 \<and>
      mergeLatestCC 3000 ?d cc1 = Inr cc2 \<and>
      length (eventsBuffer cc1) = 2 \<and>
      events cc2 = events cc1 \<and>
      length (eventsBuffer cc2) = length (eventsBuffer cc1) \<and>
      howLong (eventsBuffer cc2 ! 0) = howLong (eventsBuffer cc1 ! 0) \<and>
      whenSpokeLast (eventsBuffer cc2 ! 0) = whenSpokeLast (eventsBuffer cc1 ! 0) \<and>
      who (eventsBuffer cc2 ! 1) = who (eventsBuffer cc1 ! 1) \<and>
      when' (eventsBuffer cc2 ! 1) = when' (eventsBuffer cc1 ! 1)"
  proof (intro exI conjI)
    show "mergeLatestCC 2000 ?d ?s0 = Inr ?s1" by (rule r1)
    show "mergeLatestCC 3000 ?d ?s1 = Inr ?s2" by (rule r2)
    show "length (eventsBuffer ?s1) = 2" by (rule l1)
    from a show "events ?s2 = events ?s1" by (rule conjunct1)
    from a show "length (eventsBuffer ?s2) = length (eventsBuffer ?s1)" by blast
    from a l1 have z: "howLong (eventsBuffer ?s2 ! 0) = howLong (eventsBuffer ?s1 ! 0) \<and>
        whenSpokeLast (eventsBuffer ?s2 ! 0) = whenSpokeLast (eventsBuffer ?s1 ! 0)"
      by simp
    from z show "howLong (eventsBuffer ?s2 ! 0) = howLong (eventsBuffer ?s1 ! 0)" by (rule conjunct1)
    from z show "whenSpokeLast (eventsBuffer ?s2 ! 0) = whenSpokeLast (eventsBuffer ?s1 ! 0)"
      by (rule conjunct2)
    from a l1 show "who (eventsBuffer ?s2 ! 1) = who (eventsBuffer ?s1 ! 1)" by simp
    from a l1 show "when' (eventsBuffer ?s2 ! 1) = when' (eventsBuffer ?s1 ! 1)" by simp
  qed
  from run1 first second show ?thesis by blast
qed

text \<open>
  Claim C5 as stated fails. Two turns are on the panel, first seen at time 1000 and
  updated at time 2000; the call at time 3000 has the same panel content as the call at
  time 2000. The text of the first turn has 22 characters and its line 17, both under
  30, so the second call replaces the text by the line. The text of the last turn is
  longer than its line (the start of the caption has scrolled away), so the second call
  sees lengths that differ and extends its duration from 1900 to 3900 ms and moves the
  time of its last update.
\<close>

theorem reconcile_same_snapshot_changes_buffer_counterexample:
  "mergeAll [(1000, [[''A'', ''well I think we should go ahead now''],
                     [''B'', ''the quick brown fox jumps over the lazy dog'']]),
             (2000, [[''A'', ''I think we should''],
                     [''B'', ''brown fox jumps over the lazy dog and runs away'']])]
     newClosedCaptions =
     Inr \<lparr>events = [],
          eventsBuffer =
            [\<lparr>oid = 0, when' = 200, whenSpokeLast = 1000, who = ''A'',
              what = ''well I think we should'',
              howLong = 800, interjection = False, continuation = False\<rparr>,
             \<lparr>oid = 1, when' = 100, whenSpokeLast = 1000, who = ''B'',
              what = ''the quick brown fox jumps over the lazy dog and runs away'',
              howLong = 1900, interjection = False, continuation = False\<rparr>],
          nextOid = 4\<rparr> \<and>
   mergeLatestCC 3000 [[''A'', ''I think we should''],
                       [''B'', ''brown fox jumps over the lazy dog and runs away'']]
     \<lparr>events = [],
      eventsBuffer =
        [\<lparr>oid = 0, when' = 200, whenSpokeLast = 1000, who = ''A'',
          what = ''well I think we should'',
          howLong = 800, interjection = False, continuation = False\<rparr>,
         \<lparr>oid = 1, when' = 100, whenSpokeLast = 1000, who = ''B'',
          what = ''the quick brown fox jumps over the lazy dog and runs away'',
          howLong = 1900, interjection = False, continuation = False\<rparr>],
      nextOid = 4\<rparr> =
     Inr \<lparr>events = [],
          eventsBuffer =
            [\<lparr>oid = 0, when' = 200, whenSpokeLast = 1000, who = ''A'',
              what = ''I think we should'',
              howLong = 800, interjection = False, continuation = False\<rparr>,
             \<lparr>oid = 1, when' = 100, whenSpokeLast = 2000, who = ''B'',
              what = ''the quick brown fox jumps over the lazy dog and runs away'',
              howLong = 3900, interjection = False, continuation = False\<rparr>],
          nextOid = 6\<rparr>"
  by code_simp

end
